theory Spec2Isabelle
  imports Main "HOL-Library.Word"
begin

unbundle bit_operations_syntax

section \<open>Data model of \<^verbatim>\<open>runtime/common/scope.cpp\<close>\<close>

text \<open>
  The two structs of the source.  Both have fields called \<^verbatim>\<open>id\<close> and \<^verbatim>\<open>width\<close>;
  the fields of \<^verbatim>\<open>tap_signal_t\<close> are prefixed with \<^verbatim>\<open>sig_\<close> and those of
  \<^verbatim>\<open>tap_t\<close> with \<^verbatim>\<open>tap_\<close> to keep them apart.  All integer fields keep their
  machine width: \<^verbatim>\<open>uint32_t\<close> is \<^typ>\<open>32 word\<close>, \<^verbatim>\<open>uint64_t\<close> is \<^typ>\<open>64 word\<close>.
\<close>

record tap_signal_t =
  sig_id :: "32 word"
  sig_name :: string
  sig_width :: "32 word"

record tap_t =
  tap_id :: "32 word"
  tap_width :: "32 word"
  samples :: "32 word"
  cur_sample :: "32 word"
  cycle_time :: "64 word"
  path :: string
  signals :: "tap_signal_t list"

text \<open>
  Modelled from the spec: the type \<^verbatim>\<open>scope_callback_t\<close> is declared in
  \<^verbatim>\<open>scope.h\<close>, which is not part of the sources.  The spec describes it as a pair of
  injected operations \<^verbatim>\<open>write(value)\<close> and \<^verbatim>\<open>read() -> value\<close>, both returning a
  status code where zero means success.  The device behind the handle is a state
  \<^typ>\<open>'d\<close> that each call may change; the handle itself is a value of type \<^typ>\<open>'h\<close>.
\<close>

record ('h, 'd) scope_callback_t =
  registerWrite :: "'h \<Rightarrow> 64 word \<Rightarrow> 'd \<Rightarrow> int \<times> 'd"
  registerRead :: "'h \<Rightarrow> 'd \<Rightarrow> (int \<times> 64 word) \<times> 'd"

text \<open>
  What the program does to the register interface is recorded, call by call, in
  \<open>bus\<close>: the values written and the values read back.
\<close>

datatype bus_event = BusWrite "64 word" | BusRead "64 word"

text \<open>
  The state the two entry points share: the globals \<^verbatim>\<open>g_callback\<close> and
  \<^verbatim>\<open>g_running\<close>, the device, the log of register traffic and the lines of the file
  \<^verbatim>\<open>scope.vcd\<close> (every output statement of the source ends in \<^verbatim>\<open>std::endl\<close>, so the
  file is a list of lines).  Diagnostics on \<^verbatim>\<open>std::cout\<close> and \<^verbatim>\<open>std::cerr\<close> are left
  out.
\<close>

record ('h, 'd) scope_state =
  g_callback :: "('h, 'd) scope_callback_t"
  g_running :: bool
  dev :: 'd
  bus :: "bus_event list"
  vcd :: "string list"

text \<open>
  How a call ends.  \<open>Returned\<close> carries the \<^verbatim>\<open>int\<close> status.  \<open>Undefined\<close> marks an
  execution that leaves the defined behaviour of C++ (an access past the end of a
  vector, dereferencing an end iterator).  \<open>Thrown\<close> is an exception of the JSON
  parser leaving the function.
\<close>

datatype fault = BufferOverrun | IteratorOverrun | EmptyTokens

datatype outcome = Returned int | Undefined fault | Thrown

section \<open>Constants and register commands\<close>

definition SAMPLE_FLUSH_SIZE :: nat where
  "SAMPLE_FLUSH_SIZE = 100"

definition MAX_DELAY_CYCLES :: "64 word" where
  "MAX_DELAY_CYCLES = 10000"

definition CMD_GET_WIDTH :: "'a::len word" where
  "CMD_GET_WIDTH = 0"

definition CMD_GET_COUNT :: "'a::len word" where
  "CMD_GET_COUNT = 1"

definition CMD_GET_START :: "'a::len word" where
  "CMD_GET_START = 2"

definition CMD_GET_DATA :: "'a::len word" where
  "CMD_GET_DATA = 3"

definition CMD_SET_START :: "'a::len word" where
  "CMD_SET_START = 4"

definition CMD_SET_STOP :: "'a::len word" where
  "CMD_SET_STOP = 5"

definition CMD_SET_DEPTH :: "'a::len word" where
  "CMD_SET_DEPTH = 6"

text \<open>
  The command words, named after the local variables that hold them.  An expression
  whose operands are all \<^verbatim>\<open>uint32_t\<close> or \<^verbatim>\<open>int\<close> is computed in 32 bits and widened
  afterwards (\<open>ucast\<close>); \<^verbatim>\<open>start_time\<close> and \<^verbatim>\<open>stop_time\<close> are \<^verbatim>\<open>uint64_t\<close>, so their
  shift is a 64-bit shift and the 32-bit \<^verbatim>\<open>(id << 3)\<close> is widened before the OR.
  \<open>cmd_get_start\<close> is \<^verbatim>\<open>cmd_start\<close> of \<^verbatim>\<open>vx_scope_stop\<close>, \<open>cmd_set_start\<close> is
  \<^verbatim>\<open>cmd_start\<close> of \<^verbatim>\<open>vx_scope_start\<close>, and \<open>cmd_stop0\<close> is \<^verbatim>\<open>cmd_stop\<close> of
  \<^verbatim>\<open>vx_scope_stop\<close>, whose payload is the literal 0.
\<close>

definition cmd_width :: "32 word \<Rightarrow> 64 word" where
  "cmd_width tid = ucast (push_bit 3 tid OR CMD_GET_WIDTH)"

definition cmd_count :: "32 word \<Rightarrow> 64 word" where
  "cmd_count tid = ucast (push_bit 3 tid OR CMD_GET_COUNT)"

definition cmd_get_start :: "32 word \<Rightarrow> 64 word" where
  "cmd_get_start tid = ucast (push_bit 3 tid OR CMD_GET_START)"

definition cmd_data :: "32 word \<Rightarrow> 64 word" where
  "cmd_data tid = ucast (push_bit 3 tid OR CMD_GET_DATA)"

definition cmd_depth :: "32 word \<Rightarrow> 32 word \<Rightarrow> 64 word" where
  "cmd_depth capture_size tid =
     ucast (push_bit 11 capture_size OR push_bit 3 tid OR CMD_SET_DEPTH)"

definition cmd_stop :: "64 word \<Rightarrow> 32 word \<Rightarrow> 64 word" where
  "cmd_stop stop_time tid =
     push_bit 11 stop_time OR ucast (push_bit 3 tid) OR CMD_SET_STOP"

definition cmd_set_start :: "64 word \<Rightarrow> 32 word \<Rightarrow> 64 word" where
  "cmd_set_start start_time tid =
     push_bit 11 start_time OR ucast (push_bit 3 tid) OR CMD_SET_START"

definition cmd_stop0 :: "32 word \<Rightarrow> 64 word" where
  "cmd_stop0 tid = ucast (push_bit 11 0 OR push_bit 3 tid OR CMD_SET_STOP)"

section \<open>Register access\<close>

text \<open>
  \<^verbatim>\<open>CHECK_ERR(g_callback.registerWrite(hdevice, v))\<close> and
  \<^verbatim>\<open>CHECK_ERR(g_callback.registerRead(hdevice, &w))\<close>: the call is made and logged;
  \<open>Inl err\<close> is the early return of the macro on a non-zero status.
\<close>

definition reg_write ::
  "'h \<Rightarrow> 64 word \<Rightarrow> ('h, 'd) scope_state \<Rightarrow> (int + unit) \<times> ('h, 'd) scope_state" where
  "reg_write h v s =
     (case registerWrite (g_callback s) h v (dev s) of
        (err, d) \<Rightarrow>
          (if err = 0 then Inr () else Inl err,
           s\<lparr>dev := d, bus := bus s @ [BusWrite v]\<rparr>))"

definition reg_read ::
  "'h \<Rightarrow> ('h, 'd) scope_state \<Rightarrow> (int + 64 word) \<times> ('h, 'd) scope_state" where
  "reg_read h s =
     (case registerRead (g_callback s) h (dev s) of
        ((err, w), d) \<Rightarrow>
          (if err = 0 then Inr w else Inl err,
           s\<lparr>dev := d, bus := bus s @ [BusRead w]\<rparr>))"

text \<open>A write followed by a read, each under \<^verbatim>\<open>CHECK_ERR\<close>: one request and its response.\<close>

definition reg_query ::
  "'h \<Rightarrow> 64 word \<Rightarrow> ('h, 'd) scope_state \<Rightarrow> (int + 64 word) \<times> ('h, 'd) scope_state" where
  "reg_query h v s =
     (case reg_write h v s of
        (Inl err, s1) \<Rightarrow> (Inl err, s1)
      | (Inr _, s1) \<Rightarrow> reg_read h s1)"

section \<open>Decimal output\<close>

text \<open>\<^verbatim>\<open>ofs << n\<close> for an unsigned integer.\<close>

definition digit10 :: "nat \<Rightarrow> char" where
  "digit10 n = ''0123456789'' ! n"

fun dec :: "nat \<Rightarrow> string" where
  "dec n = (if n < 10 then [digit10 n] else dec (n div 10) @ [digit10 (n mod 10)])"

declare dec.simps [simp del]

section \<open>The clock\<close>

text \<open>The two half-periods of cycle \<open>t\<close>, as the \<^verbatim>\<open>while\<close> loop writes them.\<close>

definition clock_cycle :: "64 word \<Rightarrow> string list" where
  "clock_cycle t =
     [CHR ''#'' # dec (unat (t * 2 + 0)), ''b0 0'',
      CHR ''#'' # dec (unat (t * 2 + 1)), ''b1 0'']"

text \<open>The two entries written when the gap is larger than \<open>MAX_DELAY_CYCLES\<close>.\<close>

definition clock_gap :: "64 word \<Rightarrow> string list" where
  "clock_gap t =
     [CHR ''#'' # dec (unat (t * 2 + 0)), ''bx 0'',
      CHR ''#'' # dec (unat (t * 2 + 1)), ''bx 0'']"

function advance_clock_loop ::
  "string list \<Rightarrow> 64 word \<Rightarrow> 64 word \<Rightarrow> 64 word \<times> string list" where
  "advance_clock_loop ofs cur_time next_time =
     (if cur_time < next_time
      then advance_clock_loop (ofs @ clock_cycle cur_time) (cur_time + 1) next_time
      else (cur_time, ofs))"
  by pat_completeness auto
termination
proof (relation "measure (\<lambda>(ofs, cur_time, next_time). unat next_time - unat cur_time)")
  show "wf (measure (\<lambda>(ofs, cur_time, next_time). unat next_time - unat cur_time))"
    by simp
next
  fix ofs :: "string list" and cur_time next_time :: "64 word"
  assume lt: "cur_time < next_time"
  then have "unat cur_time < unat next_time"
    by (simp add: word_less_nat_alt)
  moreover have "unat next_time < 2 ^ 64"
    using unsigned_less [of next_time] by simp
  moreover have "unat (cur_time + 1) = (unat cur_time + 1) mod 2 ^ 64"
    by (simp add: unat_word_ariths)
  ultimately show "((ofs @ clock_cycle cur_time, cur_time + 1, next_time),
      (ofs, cur_time, next_time))
    \<in> measure (\<lambda>(ofs, cur_time, next_time). unat next_time - unat cur_time)"
    by simp
qed

declare advance_clock_loop.simps [simp del]

definition advance_clock ::
  "string list \<Rightarrow> 64 word \<Rightarrow> 64 word \<Rightarrow> 64 word \<times> string list" where
  "advance_clock ofs cur_time next_time =
     (let delta = next_time - cur_time in
      if delta > MAX_DELAY_CYCLES
      then advance_clock_loop (ofs @ clock_gap cur_time) (next_time - MAX_DELAY_CYCLES) next_time
      else advance_clock_loop ofs cur_time next_time)"

section \<open>The scheduler\<close>

text \<open>
  \<^verbatim>\<open>find_earliest_tap\<close> returns a pointer into the vector of taps or \<^verbatim>\<open>nullptr\<close>; the
  model returns the index of that tap or \<open>None\<close>.  \<open>find_earliest_step\<close> is the body of
  the \<^verbatim>\<open>for\<close> loop at index \<open>i\<close>.
\<close>

definition find_earliest_step :: "tap_t list \<Rightarrow> nat option \<Rightarrow> nat \<Rightarrow> nat option" where
  "find_earliest_step taps earliest i =
     (let tap = taps ! i in
      if samples tap = 0 then earliest
      else if cur_sample tap = samples tap then earliest
      else (case earliest of
              Some e \<Rightarrow> if cycle_time tap < cycle_time (taps ! e) then Some i else earliest
            | None \<Rightarrow> Some i))"

definition find_earliest_tap :: "tap_t list \<Rightarrow> nat option" where
  "find_earliest_tap taps = foldl (find_earliest_step taps) None [0..<length taps]"

text \<open>
  A tap is pending when it passes the two \<^verbatim>\<open>continue\<close> tests of the loop: it has
  samples, and its cursor has not reached their number.
\<close>

definition pending :: "tap_t \<Rightarrow> bool" where
  "pending tap = (samples tap \<noteq> 0 \<and> cur_sample tap \<noteq> samples tap)"

section \<open>Decoding one sample of a tap\<close>

definition NUL :: char where
  "NUL = CHR 0x00"

text \<open>
  The local variables of \<^verbatim>\<open>dump_tap\<close>.  \<open>signal_data\<close> is the vector of
  \<^verbatim>\<open>tap->width\<close> characters; \<open>signal_it\<close> is the reverse iterator, held as the
  signals not yet visited, last of the tap first, so that its head is \<^verbatim>\<open>*signal_it\<close>
  and the empty list is \<^verbatim>\<open>rend()\<close>; \<open>cur_word\<close> is the variable \<^verbatim>\<open>word\<close>.
\<close>

record decoder =
  signal_offset :: "32 word"
  sample_offset :: "32 word"
  cur_word :: "64 word"
  signal_data :: "char list"
  signal_it :: "tap_signal_t list"
  signal_width :: "32 word"

text \<open>
  One pass through the body of the inner \<^verbatim>\<open>do\<close> loop either leaves
  \<^verbatim>\<open>dump_tap\<close> (\<open>Finished\<close>) or goes round one of the two loops (\<open>Next\<close>).
\<close>

datatype ('h, 'd) bit_step =
    Finished outcome tap_t "('h, 'd) scope_state"
  | Next decoder "('h, 'd) scope_state"

text \<open>
  The two loop conditions.  While \<^verbatim>\<open>sample_offset % 64\<close> is not zero the inner loop
  continues with the same word; otherwise the outer loop continues, while
  \<^verbatim>\<open>sample_offset != tap->width\<close>, by reading the next word; otherwise the function
  returns 0.
\<close>

definition dump_tap_next ::
  "'h \<Rightarrow> tap_t \<Rightarrow> decoder \<Rightarrow> ('h, 'd) scope_state \<Rightarrow> ('h, 'd) bit_step" where
  "dump_tap_next h tap st s =
     (if sample_offset st mod 64 \<noteq> 0 then Next st s
      else if sample_offset st \<noteq> tap_width tap
      then (case reg_query h (cmd_data (tap_id tap)) s of
              (Inl err, s1) \<Rightarrow> Finished (Returned err) tap s1
            | (Inr w, s1) \<Rightarrow> Next (st\<lparr>cur_word := w\<rparr>) s1)
      else Finished (Returned 0) tap s)"

text \<open>
  The end of a sample: the cursor of the tap moves on and, unless that was the last
  sample, the next delta is read and added to the time of the tap.  The flush of every
  100th sample writes nothing to the file and is left out.
\<close>

definition end_of_sample ::
  "'h \<Rightarrow> tap_t \<Rightarrow> ('h, 'd) scope_state \<Rightarrow> outcome \<times> tap_t \<times> ('h, 'd) scope_state" where
  "end_of_sample h tap s =
     (let tap = tap\<lparr>cur_sample := cur_sample tap + 1\<rparr> in
      if cur_sample tap \<noteq> samples tap
      then (case reg_query h (cmd_data (tap_id tap)) s of
              (Inl err, s1) \<Rightarrow> (Returned err, tap, s1)
            | (Inr w, s1) \<Rightarrow>
                (Returned 0, tap\<lparr>cycle_time := cycle_time tap + (1 + w)\<rparr>, s1))
      else (Returned 0, tap, s))"

text \<open>
  The first half of the body of the inner loop: the bit at \<^verbatim>\<open>sample_offset % 64\<close> of
  the word is stored as a character at index \<^verbatim>\<open>signal_width - signal_offset - 1\<close>
  (computed in 32 bits) and both offsets are incremented.
\<close>

definition store_bit :: "decoder \<Rightarrow> decoder" where
  "store_bit st =
     (let word_offset = sample_offset st mod 64 in
      st\<lparr>signal_data := (signal_data st)
             [unat (signal_width st - signal_offset st - 1) :=
                if drop_bit (unat word_offset) (cur_word st) AND 1 \<noteq> 0
                then CHR ''1'' else CHR ''0''],
         signal_offset := signal_offset st + 1,
         sample_offset := sample_offset st + 1\<rparr>)"

text \<open>
  The block under \<^verbatim>\<open>if (signal_offset == signal_width)\<close>: the string is terminated
  and written with the id of the signal; at the end of the sample the function is left
  through \<open>end_of_sample\<close>, otherwise the iterator moves to the next signal.  The line
  written is the C string at \<^verbatim>\<open>signal_data.data()\<close>, that is, the characters before
  the first \<open>NUL\<close>.
\<close>

definition end_of_signal ::
  "'h \<Rightarrow> tap_t \<Rightarrow> decoder \<Rightarrow> ('h, 'd) scope_state \<Rightarrow> ('h, 'd) bit_step" where
  "end_of_signal h tap st s =
     (if length (signal_data st) \<le> unat (signal_width st)
      then Finished (Undefined BufferOverrun) tap s
      else
        (case signal_it st of
           [] \<Rightarrow> Finished (Undefined IteratorOverrun) tap s
         | signal # signal_rest \<Rightarrow>
             let st1 = st\<lparr>signal_data := (signal_data st)[unat (signal_width st) := NUL]\<rparr>;
                 s1 = s\<lparr>vcd := vcd s @
                        [CHR ''b'' # takeWhile (\<lambda>c. c \<noteq> NUL) (signal_data st1) @ '' '' @
                         dec (unat (sig_id signal))]\<rparr>
             in
             if sample_offset st1 = tap_width tap
             then (case end_of_sample h tap s1 of
                     (out, tap1, s2) \<Rightarrow> Finished out tap1 s2)
             else
               (case signal_rest of
                  [] \<Rightarrow> Finished (Undefined IteratorOverrun) tap s1
                | signal1 # _ \<Rightarrow>
                    dump_tap_next h tap
                      (st1\<lparr>signal_offset := 0, signal_it := signal_rest,
                           signal_width := sig_width signal1\<rparr>) s1)))"

text \<open>
  The body of the inner loop with the conditions of both loops.  The two stores into
  \<open>signal_data\<close> are checked against the size of the vector, and the iterator against
  \<^verbatim>\<open>rend()\<close>, because the source does neither: where a check fails the execution is
  undefined.
\<close>

definition dump_tap_bit ::
  "'h \<Rightarrow> tap_t \<Rightarrow> decoder \<Rightarrow> ('h, 'd) scope_state \<Rightarrow> ('h, 'd) bit_step" where
  "dump_tap_bit h tap st s =
     (if length (signal_data st) \<le> unat (signal_width st - signal_offset st - 1)
      then Finished (Undefined BufferOverrun) tap s
      else
        let st1 = store_bit st in
        if signal_offset st1 = signal_width st1 then end_of_signal h tap st1 s
        else dump_tap_next h tap st1 s)"

function dump_tap_bits ::
  "'h \<Rightarrow> tap_t \<Rightarrow> decoder \<Rightarrow> ('h, 'd) scope_state
     \<Rightarrow> outcome \<times> tap_t \<times> ('h, 'd) scope_state" where
  "dump_tap_bits h tap st s =
     (case dump_tap_bit h tap st s of
        Finished out tap1 s1 \<Rightarrow> (out, tap1, s1)
      | Next st1 s1 \<Rightarrow> dump_tap_bits h tap st1 s1)"
  by pat_completeness auto
termination
proof (relation "measures
    [\<lambda>(h, tap, st, s). length (signal_it st),
     \<lambda>(h, tap, st, s). unat (signal_width st - signal_offset st - 1)]", goal_cases)
  case 1
  show ?case by simp
next
  case (2 h tap st s st' s')
  have keeps: "signal_it b = signal_it a \<and> signal_width b = signal_width a
      \<and> signal_offset b = signal_offset a"
    if "dump_tap_next h tap a t = Next b t'"
    for a b :: decoder and t t' :: "('a, 'b) scope_state"
    using that
    by (auto simp add: dump_tap_next_def split: if_splits prod.splits sum.splits)
  have moves: "\<exists>signal. signal_it a = signal # signal_it b"
    if "end_of_signal h tap a t = Next b t'"
    for a b :: decoder and t t' :: "('a, 'b) scope_state"
    using that unfolding end_of_signal_def Let_def
    by (auto split: if_splits list.splits prod.splits dest!: keeps)
  have sel: "signal_it (store_bit st) = signal_it st"
    "signal_width (store_bit st) = signal_width st"
    "signal_offset (store_bit st) = signal_offset st + 1"
    by (simp_all add: store_bit_def)
  from 2 have alt: "signal_it st' = signal_it st \<and> signal_width st' = signal_width st \<and>
       signal_offset st' = signal_offset st + 1 \<and>
       signal_offset st + 1 \<noteq> signal_width st
       \<or> (\<exists>signal. signal_it st = signal # signal_it st')"
    unfolding dump_tap_bit_def Let_def
    by (auto simp add: sel split: if_splits dest!: keeps moves)
  from alt show ?case
  proof
    assume same: "signal_it st' = signal_it st \<and> signal_width st' = signal_width st \<and>
          signal_offset st' = signal_offset st + 1 \<and>
          signal_offset st + 1 \<noteq> signal_width st"
    define d where "d = signal_width st - signal_offset st - 1"
    from same have ne: "d \<noteq> 0"
      unfolding d_def by (auto simp add: algebra_simps)
    then have "unat d \<noteq> 0"
      by (simp add: unat_eq_zero)
    with ne have less: "unat (d - 1) < unat d"
      by (simp add: unat_minus_one)
    have "signal_width st - (signal_offset st + 1) - 1 = d - 1"
      unfolding d_def by simp
    with same have B: "signal_width st' - signal_offset st' - 1 = d - 1"
      by simp
    have "unat (signal_width st' - signal_offset st' - 1) < unat d"
      unfolding B by (rule less)
    moreover from same have "signal_it st' = signal_it st"
      by simp
    ultimately show ?thesis
      unfolding d_def by simp
  next
    assume "\<exists>signal. signal_it st = signal # signal_it st'"
    then show ?thesis
      by auto
  qed
qed

declare dump_tap_bits.simps [simp del]

text \<open>
  \<^verbatim>\<open>dump_tap\<close>: the vector is allocated, the iterator is set to the last signal
  (dereferencing it is undefined for a tap without signals), the first word is read,
  and the loops run.
\<close>

definition dump_tap ::
  "'h \<Rightarrow> tap_t \<Rightarrow> ('h, 'd) scope_state \<Rightarrow> outcome \<times> tap_t \<times> ('h, 'd) scope_state" where
  "dump_tap h tap s =
     (case rev (signals tap) of
        [] \<Rightarrow> (Undefined IteratorOverrun, tap, s)
      | signal # signal_rest \<Rightarrow>
          (case reg_query h (cmd_data (tap_id tap)) s of
             (Inl err, s1) \<Rightarrow> (Returned err, tap, s1)
           | (Inr w, s1) \<Rightarrow>
               dump_tap_bits h tap
                 \<lparr>signal_offset = 0, sample_offset = 0, cur_word = w,
                  signal_data = replicate (unat (tap_width tap)) NUL,
                  signal_it = signal # signal_rest,
                  signal_width = sig_width signal\<rparr> s1))"

section \<open>The manifest and the environment\<close>

record json_tap =
  j_id :: "32 word"
  j_width :: "32 word"
  j_path :: string
  j_signals :: "(string \<times> 32 word) list"

datatype manifest_file =
    FileMissing
  | FileInvalid
  | FileNull
  | FileTaps "json_tap list"

record scope_env =
  manifest :: manifest_file
  scope_depth :: "32 word option"
  set_order :: "string list \<Rightarrow> string list"

section \<open>The header\<close>

fun split_from :: "string \<Rightarrow> char \<Rightarrow> string \<Rightarrow> string list" where
  "split_from [] delimiter token = (if token = [] then [] else [token])"
| "split_from (c # cs) delimiter token =
     (if c = delimiter then token # split_from cs delimiter []
      else split_from cs delimiter (token @ [c]))"

definition split :: "string \<Rightarrow> char \<Rightarrow> string list" where
  "split s delimiter = split_from s delimiter []"

definition set_insert :: "string \<Rightarrow> string list \<Rightarrow> string list" where
  "set_insert x xs = (if x \<in> set xs then xs else xs @ [x])"

definition hierarchy_insert ::
  "(string \<rightharpoonup> string list) \<Rightarrow> string \<Rightarrow> string \<Rightarrow> (string \<rightharpoonup> string list)" where
  "hierarchy_insert hierarchy parent child =
     hierarchy(parent \<mapsto>
       set_insert child (case hierarchy parent of None \<Rightarrow> [] | Some children \<Rightarrow> children))"

fun add_edges :: "(string \<rightharpoonup> string list) \<Rightarrow> string list \<Rightarrow> (string \<rightharpoonup> string list)" where
  "add_edges hierarchy (a # b # tokens) = add_edges (hierarchy_insert hierarchy a b) (b # tokens)"
| "add_edges hierarchy tokens = hierarchy"

fun build_hierarchy ::
  "tap_t list \<Rightarrow> (string \<rightharpoonup> string list) \<times> string list \<times> (string \<rightharpoonup> tap_t)
     \<Rightarrow> fault + (string \<rightharpoonup> string list) \<times> string list \<times> (string \<rightharpoonup> tap_t)" where
  "build_hierarchy [] acc = Inr acc"
| "build_hierarchy (tap # taps) (hierarchy, heads, tails) =
     (let tokens = split (path tap) CHR ''.'' in
      case tokens of
        [] \<Rightarrow> Inl EmptyTokens
      | h # _ \<Rightarrow>
          build_hierarchy taps
            (add_edges hierarchy tokens, set_insert h heads, tails(last tokens \<mapsto> tap)))"

definition var_line :: "string \<Rightarrow> tap_signal_t \<Rightarrow> string" where
  "var_line indent signal =
     indent @ '' $var wire '' @ dec (unat (sig_width signal)) @ '' '' @
     dec (unat (sig_id signal)) @ '' '' @ sig_name signal @ '' $end''"

fun dump_module ::
  "nat \<Rightarrow> (string list \<Rightarrow> string list) \<Rightarrow> string list \<Rightarrow> string
     \<Rightarrow> (string \<rightharpoonup> string list) \<Rightarrow> (string \<rightharpoonup> tap_t) \<Rightarrow> nat \<Rightarrow> string list option" where
  "dump_module 0 order ofs name hierarchy tails indentation = None"
| "dump_module (Suc fuel) order ofs name hierarchy tails indentation =
     (let indent = replicate indentation CHR '' '';
          ofs1 = ofs @ [indent @ ''$scope module '' @ name @ '' $end''];
          ofs2 = (case tails name of
                    Some tap \<Rightarrow> ofs1 @ map (var_line indent) (signals tap)
                  | None \<Rightarrow> ofs1);
          ofs3 = (case hierarchy name of
                    Some children \<Rightarrow>
                      fold (\<lambda>child acc.
                              case acc of
                                None \<Rightarrow> None
                              | Some ofs' \<Rightarrow>
                                  dump_module fuel order ofs' child hierarchy tails
                                    (indentation + 1))
                        (order children) (Some ofs2)
                  | None \<Rightarrow> Some ofs2)
      in case ofs3 of
           None \<Rightarrow> None
         | Some ofs4 \<Rightarrow> Some (ofs4 @ [indent @ ''$upscope $end'']))"

definition dump_header ::
  "nat \<Rightarrow> (string list \<Rightarrow> string list) \<Rightarrow> string list \<Rightarrow> tap_t list
     \<Rightarrow> (fault + string list) option" where
  "dump_header fuel order ofs taps =
     (let ofs1 = ofs @
            [''$version Generated by Vortex Scope Analyzer $end'',
             ''$timescale 1 ns $end'',
             ''$scope module TOP $end'',
             '' $var wire 1 0 clk $end'']
      in case build_hierarchy taps (Map.empty, [], Map.empty) of
           Inl f \<Rightarrow> Some (Inl f)
         | Inr (hierarchy, heads, tails) \<Rightarrow>
             (case fold (\<lambda>head acc.
                           case acc of
                             None \<Rightarrow> None
                           | Some ofs' \<Rightarrow> dump_module fuel order ofs' head hierarchy tails 1)
                     (order heads) (Some ofs1) of
                None \<Rightarrow> None
              | Some ofs2 \<Rightarrow> Some (Inr (ofs2 @ [''$upscope $end'', ''enddefinitions $end'']))))"

text \<open>
  For stating what the header looks like: a scope block of the output format, with
  the \<^verbatim>\<open>$var\<close> lines of its own signals and the blocks nested in it; and the
  requirement on the iteration order of an unordered set, which may be any order
  without repetition.
\<close>

definition scope_block :: "nat \<Rightarrow> string \<Rightarrow> tap_signal_t list \<Rightarrow> string list \<Rightarrow> string list" where
  "scope_block indentation name sigs inner =
     [replicate indentation CHR '' '' @ ''$scope module '' @ name @ '' $end''] @
     map (var_line (replicate indentation CHR '' '')) sigs @ inner @
     [replicate indentation CHR '' '' @ ''$upscope $end'']"

definition is_set_order :: "(string list \<Rightarrow> string list) \<Rightarrow> bool" where
  "is_set_order order = (\<forall>xs. distinct xs \<longrightarrow> set (order xs) = set xs \<and> distinct (order xs))"

section \<open>Starting a capture\<close>

fun validate_taps ::
  "'h \<Rightarrow> json_tap list \<Rightarrow> ('h, 'd) scope_state \<Rightarrow> (int + unit) \<times> ('h, 'd) scope_state" where
  "validate_taps h [] s = (Inr (), s)"
| "validate_taps h (tap # taps) s =
     (case reg_query h (cmd_width (j_id tap)) s of
        (Inl err, s1) \<Rightarrow> (Inl err, s1)
      | (Inr dev_width, s1) \<Rightarrow>
          if ucast (j_width tap) \<noteq> dev_width then (Inl 1, s1)
          else validate_taps h taps s1)"

fun write_taps ::
  "'h \<Rightarrow> (32 word \<Rightarrow> 64 word) \<Rightarrow> 32 word list \<Rightarrow> ('h, 'd) scope_state
     \<Rightarrow> (int + unit) \<times> ('h, 'd) scope_state" where
  "write_taps h cmd [] s = (Inr (), s)"
| "write_taps h cmd (tid # tids) s =
     (case reg_write h (cmd tid) s of
        (Inl err, s1) \<Rightarrow> (Inl err, s1)
      | (Inr _, s1) \<Rightarrow> write_taps h cmd tids s1)"

definition vx_scope_start ::
  "scope_env \<Rightarrow> ('h, 'd) scope_callback_t option \<Rightarrow> 'h option \<Rightarrow> 64 word \<Rightarrow> 64 word
     \<Rightarrow> ('h, 'd) scope_state \<Rightarrow> outcome \<times> ('h, 'd) scope_state" where
  "vx_scope_start env callback hdevice start_time stop_time s =
     (case (hdevice, callback) of
        (Some h, Some cb) \<Rightarrow>
          (case manifest env of
             FileMissing \<Rightarrow> (Returned (- 1), s)
           | FileInvalid \<Rightarrow> (Thrown, s)
           | FileNull \<Rightarrow> (Returned (- 1), s)
           | FileTaps taps \<Rightarrow>
               (case validate_taps h taps (s\<lparr>g_callback := cb\<rparr>) of
                  (Inl err, s1) \<Rightarrow> (Returned err, s1)
                | (Inr _, s1) \<Rightarrow>
               (case (case scope_depth env of
                        Some capture_size \<Rightarrow>
                          write_taps h (cmd_depth capture_size) (map j_id taps) s1
                      | None \<Rightarrow> (Inr (), s1)) of
                  (Inl err, s2) \<Rightarrow> (Returned err, s2)
                | (Inr _, s2) \<Rightarrow>
               (case (if stop_time \<noteq> - 1
                      then write_taps h (cmd_stop stop_time) (map j_id taps) s2
                      else (Inr (), s2)) of
                  (Inl err, s3) \<Rightarrow> (Returned err, s3)
                | (Inr _, s3) \<Rightarrow>
               (case (if start_time \<noteq> - 1
                      then write_taps h (cmd_set_start start_time) (map j_id taps) s3
                      else (Inr (), s3)) of
                  (Inl err, s4) \<Rightarrow> (Returned err, s4)
                | (Inr _, s4) \<Rightarrow> (Returned 0, s4\<lparr>g_running := True\<rparr>))))))
      | _ \<Rightarrow> (Returned (- 1), s))"

section \<open>Stopping and dumping\<close>

fun load_signals :: "(string \<times> 32 word) list \<Rightarrow> 32 word \<Rightarrow> tap_signal_t list \<times> 32 word" where
  "load_signals [] signal_id = ([], signal_id)"
| "load_signals ((name, width) # rest) signal_id =
     (case load_signals rest (signal_id + 1) of
        (sigs, next_id) \<Rightarrow>
          (\<lparr>sig_id = signal_id, sig_name = name, sig_width = width\<rparr> # sigs, next_id))"

fun load_taps :: "json_tap list \<Rightarrow> 32 word \<Rightarrow> tap_t list" where
  "load_taps [] signal_id = []"
| "load_taps (tap # taps) signal_id =
     (case load_signals (j_signals tap) signal_id of
        (sigs, next_id) \<Rightarrow>
          \<lparr>tap_id = j_id tap, tap_width = j_width tap, samples = 0, cur_sample = 0,
           cycle_time = 0, path = j_path tap, signals = sigs\<rparr> # load_taps taps next_id)"

definition load_tap_info ::
  "'h \<Rightarrow> tap_t \<Rightarrow> ('h, 'd) scope_state \<Rightarrow> (int + tap_t) \<times> ('h, 'd) scope_state" where
  "load_tap_info h tap s =
     (case reg_query h (cmd_count (tap_id tap)) s of
        (Inl err, s1) \<Rightarrow> (Inl err, s1)
      | (Inr count, s1) \<Rightarrow>
          if count = 0 then (Inr tap, s1)
          else
            (case reg_query h (cmd_get_start (tap_id tap)) s1 of
               (Inl err, s2) \<Rightarrow> (Inl err, s2)
             | (Inr start, s2) \<Rightarrow>
                 (case reg_query h (cmd_data (tap_id tap)) s2 of
                    (Inl err, s3) \<Rightarrow> (Inl err, s3)
                  | (Inr delta, s3) \<Rightarrow>
                      (Inr (tap\<lparr>samples := ucast count, cycle_time := 1 + start + delta\<rparr>),
                       s3))))"

fun load_trace_info ::
  "'h \<Rightarrow> tap_t list \<Rightarrow> ('h, 'd) scope_state \<Rightarrow> (int + tap_t list) \<times> ('h, 'd) scope_state" where
  "load_trace_info h [] s = (Inr [], s)"
| "load_trace_info h (tap # taps) s =
     (case load_tap_info h tap s of
        (Inl err, s1) \<Rightarrow> (Inl err, s1)
      | (Inr tap1, s1) \<Rightarrow>
          (case load_trace_info h taps s1 of
             (Inl err, s2) \<Rightarrow> (Inl err, s2)
           | (Inr taps1, s2) \<Rightarrow> (Inr (tap1 # taps1), s2)))"

fun dump_taps ::
  "nat \<Rightarrow> 'h \<Rightarrow> tap_t list \<Rightarrow> nat \<Rightarrow> 64 word \<Rightarrow> (nat \<times> 64 word \<times> 64 word) list
     \<Rightarrow> ('h, 'd) scope_state
     \<Rightarrow> (outcome \<times> 64 word \<times> tap_t list \<times> (nat \<times> 64 word \<times> 64 word) list
          \<times> ('h, 'd) scope_state) option"
  where
  "dump_taps 0 h taps i cur_time sched s = None"
| "dump_taps (Suc fuel) h taps i cur_time sched s =
     (case advance_clock (vcd s) cur_time (cycle_time (taps ! i)) of
        (cur_time1, ofs) \<Rightarrow>
          (case dump_tap h (taps ! i) (s\<lparr>vcd := ofs\<rparr>) of
             (out, tap1, s1) \<Rightarrow>
               let taps1 = taps[i := tap1];
                   sched1 = sched @ [(i, cycle_time (taps ! i), cycle_time tap1)]
               in
               if out \<noteq> Returned 0 then Some (out, cur_time1, taps1, sched1, s1)
               else
                 (case find_earliest_tap taps1 of
                    Some j \<Rightarrow> dump_taps fuel h taps1 j cur_time1 sched1 s1
                  | None \<Rightarrow> Some (Returned 0, cur_time1, taps1, sched1, s1))))"

definition vx_scope_stop ::
  "nat \<Rightarrow> scope_env \<Rightarrow> 'h option \<Rightarrow> ('h, 'd) scope_state
     \<Rightarrow> (outcome \<times> ('h, 'd) scope_state) option" where
  "vx_scope_stop fuel env hdevice s =
     (case hdevice of
        None \<Rightarrow> Some (Returned (- 1), s)
      | Some h \<Rightarrow>
          if \<not> g_running s then Some (Returned 0, s)
          else
            let s0 = s\<lparr>g_running := False\<rparr> in
            (case manifest env of
               FileMissing \<Rightarrow> Some (Thrown, s0)
             | FileInvalid \<Rightarrow> Some (Thrown, s0)
             | FileNull \<Rightarrow> Some (Returned 0, s0)
             | FileTaps jtaps \<Rightarrow>
                 (case write_taps h cmd_stop0 (map tap_id (load_taps jtaps 1)) s0 of
                    (Inl err, s1) \<Rightarrow> Some (Returned err, s1)
                  | (Inr _, s1) \<Rightarrow>
                 (case load_trace_info h (load_taps jtaps 1) s1 of
                    (Inl err, s2) \<Rightarrow> Some (Returned err, s2)
                  | (Inr taps, s2) \<Rightarrow>
                 (case dump_header fuel (set_order env) [] taps of
                    None \<Rightarrow> None
                  | Some (Inl f) \<Rightarrow> Some (Undefined f, s2\<lparr>vcd := []\<rparr>)
                  | Some (Inr ofs) \<Rightarrow>
                 (case find_earliest_tap taps of
                    None \<Rightarrow> Some (Returned 0, s2\<lparr>vcd := ofs\<rparr>)
                  | Some i \<Rightarrow>
                 (case dump_taps fuel h taps i 0 [] (s2\<lparr>vcd := ofs\<rparr>) of
                    None \<Rightarrow> None
                  | Some (out, cur_time, taps1, sched, s3) \<Rightarrow>
                      if out \<noteq> Returned 0 then Some (out, s3)
                      else Some (Returned 0,
                             s3\<lparr>vcd := snd (advance_clock (vcd s3) cur_time (cur_time + 1))\<rparr>))))))))"

section \<open>A scripted device\<close>

text \<open>
  A device for concrete runs: every write succeeds, and a read returns the next word
  of a prepared list, failing with status 1 once the list is exhausted.
\<close>

definition script_callback :: "(unit, 64 word list) scope_callback_t" where
  "script_callback =
     \<lparr>registerWrite = (\<lambda>h v d. (0, d)),
      registerRead = (\<lambda>h d. case d of [] \<Rightarrow> ((1, 0), []) | w # ws \<Rightarrow> ((0, w), ws))\<rparr>"

definition script_state :: "bool \<Rightarrow> 64 word list \<Rightarrow> (unit, 64 word list) scope_state" where
  "script_state running ws =
     \<lparr>g_callback = script_callback, g_running = running, dev = ws, bus = [], vcd = []\<rparr>"

text \<open>
  A tap of width 4 with sub-signals of widths 1 and 3, two samples pending; a tap of
  width 4 with a single sub-signal of width 4; and the first tap with its sub-signals
  in the other order.
\<close>

definition tap13 :: tap_t where
  "tap13 =
     \<lparr>tap_id = 7, tap_width = 4, samples = 2, cur_sample = 0, cycle_time = 10,
      path = ''cpu.core.reg'',
      signals = [\<lparr>sig_id = 1, sig_name = ''a'', sig_width = 1\<rparr>,
                 \<lparr>sig_id = 2, sig_name = ''b'', sig_width = 3\<rparr>]\<rparr>"

definition tap4 :: tap_t where
  "tap4 =
     \<lparr>tap_id = 7, tap_width = 4, samples = 2, cur_sample = 0, cycle_time = 10,
      path = ''cpu.core.alu'',
      signals = [\<lparr>sig_id = 1, sig_name = ''a'', sig_width = 4\<rparr>]\<rparr>"

definition tap31 :: tap_t where
  "tap31 =
     \<lparr>tap_id = 7, tap_width = 4, samples = 2, cur_sample = 0, cycle_time = 10,
      path = ''cpu.core.reg'',
      signals = [\<lparr>sig_id = 1, sig_name = ''a'', sig_width = 3\<rparr>,
                 \<lparr>sig_id = 2, sig_name = ''b'', sig_width = 1\<rparr>]\<rparr>"

text \<open>A manifest with the first of these taps, and environments around it.\<close>

definition json13 :: json_tap where
  "json13 = \<lparr>j_id = 7, j_width = 4, j_path = ''cpu.core.reg'',
              j_signals = [(''a'', 1), (''b'', 3)]\<rparr>"

definition env13 :: scope_env where
  "env13 = \<lparr>manifest = FileTaps [json13], scope_depth = None, set_order = (\<lambda>xs. xs)\<rparr>"

definition env_null :: scope_env where
  "env_null = \<lparr>manifest = FileNull, scope_depth = None, set_order = (\<lambda>xs. xs)\<rparr>"

definition env_invalid :: scope_env where
  "env_invalid = \<lparr>manifest = FileInvalid, scope_depth = None, set_order = (\<lambda>xs. xs)\<rparr>"



definition idle_callback :: "(unit, unit) scope_callback_t" where
  "idle_callback =
     \<lparr>registerWrite = (\<lambda>h v d. (0, d)), registerRead = (\<lambda>h d. ((0, 0), d))\<rparr>"

definition idle_state :: "(unit, unit) scope_state" where
  "idle_state =
     \<lparr>g_callback = idle_callback, g_running = True, dev = (), bus = [], vcd = []\<rparr>"

text \<open>
  A manifest of three taps, the second of which will report no samples.
\<close>

definition json22 :: json_tap where
  "json22 = \<lparr>j_id = 8, j_width = 4, j_path = ''cpu.core.alu'',
              j_signals = [(''c'', 2), (''d'', 2)]\<rparr>"

definition json_idle :: json_tap where
  "json_idle = \<lparr>j_id = 9, j_width = 4, j_path = ''cpu.core.lsu'',
              j_signals = [(''e'', 2), (''f'', 2)]\<rparr>"

definition env_mixed :: scope_env where
  "env_mixed = \<lparr>manifest = FileTaps [json13, json_idle, json22], scope_depth = None,
                set_order = (\<lambda>xs. xs)\<rparr>"

section \<open>Reading the file back\<close>

text \<open>
  For stating what the file says: the number that a string of decimal digits denotes,
  and the timestamps of a list of lines, which are the numbers on the lines that start
  with \<open>#\<close>, in the order of the file.
\<close>

definition read_dec :: "string \<Rightarrow> nat" where
  "read_dec ds = foldl (\<lambda>a c. 10 * a + (of_char c - 48)) 0 ds"

definition timestamps :: "string list \<Rightarrow> nat list" where
  "timestamps ls = map (\<lambda>l. read_dec (tl l)) (filter (\<lambda>l. l \<noteq> [] \<and> hd l = CHR ''#'') ls)"

section \<open>Auxiliary facts\<close>

subsection \<open>Bit fields of the command words\<close>

lemma low_bits:
  fixes op :: "'a::len word"
  assumes "take_bit k op = op" and "bit op n"
  shows "n < k"
proof -
  have "bit (take_bit k op) n \<Longrightarrow> n < k"
    by (simp add: bit_simps)
  with assms show ?thesis by simp
qed

lemma small_id:
  fixes tid :: "32 word"
  assumes "tid < 256"
  shows "take_bit 8 tid = tid"
proof -
  have "tid < 2 ^ 8" using assms by simp
  then have "tid AND mask 8 = tid" by (rule less_mask_eq)
  then show ?thesis by (simp only: take_bit_eq_mask)
qed

lemma enc64:
  fixes op :: "64 word" and tid :: "32 word"
  assumes op: "take_bit 3 op = op"
  shows "take_bit 3 (push_bit 11 t OR ucast (push_bit 3 tid) OR op) = op"
    and "tid < 256 \<Longrightarrow>
         take_bit 8 (drop_bit 3 (push_bit 11 t OR ucast (push_bit 3 tid) OR op)) = ucast tid"
    and "tid < 256 \<Longrightarrow>
         drop_bit 11 (push_bit 11 t OR ucast (push_bit 3 tid) OR op) = take_bit 53 t"
proof -
  show "take_bit 3 (push_bit 11 t OR ucast (push_bit 3 tid) OR op) = op"
  proof (rule bit_word_eqI)
    fix n
    show "bit (take_bit 3 (push_bit 11 t OR ucast (push_bit 3 tid) OR op)) n = bit op n"
      using low_bits [OF op, of n] by (auto simp add: bit_simps)
  qed
next
  assume "tid < 256"
  then have t: "take_bit 8 tid = tid" by (rule small_id)
  show "take_bit 8 (drop_bit 3 (push_bit 11 t OR ucast (push_bit 3 tid) OR op)) = ucast tid"
  proof (rule bit_word_eqI)
    fix n
    have a: "\<not> bit op (3 + n)" using low_bits [OF op, of "3 + n"] by auto
    have b: "bit tid n \<Longrightarrow> n < 8" using low_bits [OF t, of n] by auto
    show "bit (take_bit 8 (drop_bit 3 (push_bit 11 t OR ucast (push_bit 3 tid) OR op))) n
        = bit (ucast tid :: 64 word) n"
      using b by (auto simp add: bit_simps a)
  qed
next
  assume "tid < 256"
  then have t: "take_bit 8 tid = tid" by (rule small_id)
  show "drop_bit 11 (push_bit 11 t OR ucast (push_bit 3 tid) OR op) = take_bit 53 t"
  proof (rule bit_word_eqI)
    fix n
    have a: "\<not> bit op (11 + n)" using low_bits [OF op, of "11 + n"] by auto
    have b: "\<not> bit tid (8 + n)" using low_bits [OF t, of "8 + n"] by auto
    show "bit (drop_bit 11 (push_bit 11 t OR ucast (push_bit 3 tid) OR op)) n
        = bit (take_bit 53 t) n"
      by (auto simp add: bit_simps a b dest: bit_imp_le_length)
  qed
qed

lemma enc32:
  fixes op :: "32 word" and tid :: "32 word"
  assumes op: "take_bit 3 op = op"
  shows "take_bit 3 (ucast (push_bit 11 c OR push_bit 3 tid OR op) :: 64 word) = ucast op"
    and "tid < 256 \<Longrightarrow>
         take_bit 8 (drop_bit 3 (ucast (push_bit 11 c OR push_bit 3 tid OR op) :: 64 word))
         = ucast tid"
    and "tid < 256 \<Longrightarrow>
         drop_bit 11 (ucast (push_bit 11 c OR push_bit 3 tid OR op) :: 64 word)
         = ucast (take_bit 21 c)"
proof -
  show "take_bit 3 (ucast (push_bit 11 c OR push_bit 3 tid OR op) :: 64 word) = ucast op"
  proof (rule bit_word_eqI)
    fix n
    show "bit (take_bit 3 (ucast (push_bit 11 c OR push_bit 3 tid OR op) :: 64 word)) n
        = bit (ucast op :: 64 word) n"
      using low_bits [OF op, of n] by (auto simp add: bit_simps)
  qed
next
  assume "tid < 256"
  then have t: "take_bit 8 tid = tid" by (rule small_id)
  show "take_bit 8 (drop_bit 3 (ucast (push_bit 11 c OR push_bit 3 tid OR op) :: 64 word))
         = ucast tid"
  proof (rule bit_word_eqI)
    fix n
    have a: "\<not> bit op (3 + n)" using low_bits [OF op, of "3 + n"] by auto
    have b: "bit tid n \<Longrightarrow> n < 8" using low_bits [OF t, of n] by auto
    show "bit (take_bit 8 (drop_bit 3 (ucast (push_bit 11 c OR push_bit 3 tid OR op) :: 64 word))) n
        = bit (ucast tid :: 64 word) n"
      using b by (auto simp add: bit_simps a)
  qed
next
  assume "tid < 256"
  then have t: "take_bit 8 tid = tid" by (rule small_id)
  show "drop_bit 11 (ucast (push_bit 11 c OR push_bit 3 tid OR op) :: 64 word)
         = ucast (take_bit 21 c)"
  proof (rule bit_word_eqI)
    fix n
    have a: "\<not> bit op (11 + n)" using low_bits [OF op, of "11 + n"] by auto
    have b: "\<not> bit tid (8 + n)" using low_bits [OF t, of "8 + n"] by auto
    show "bit (drop_bit 11 (ucast (push_bit 11 c OR push_bit 3 tid OR op) :: 64 word)) n
        = bit (ucast (take_bit 21 c) :: 64 word) n"
      by (auto simp add: bit_simps a b dest: bit_imp_le_length)
  qed
qed

lemma opcode_small:
  "take_bit 3 (0 :: 32 word) = 0" "take_bit 3 (1 :: 32 word) = 1"
  "take_bit 3 (2 :: 32 word) = 2" "take_bit 3 (3 :: 32 word) = 3"
  "take_bit 3 (4 :: 64 word) = 4" "take_bit 3 (5 :: 64 word) = 5"
  "take_bit 3 (5 :: 32 word) = 5" "take_bit 3 (6 :: 32 word) = 6"
  by simp_all

lemma get_cmd_as_depth0:
  "ucast (push_bit 3 tid OR op) = (ucast (push_bit 11 0 OR push_bit 3 tid OR op) :: 64 word)"
  for tid op :: "32 word"
  by simp

lemma ucast_shift_small:
  fixes tid :: "32 word"
  assumes "tid < 256"
  shows "(ucast (push_bit 3 tid) :: 64 word) = push_bit 3 (ucast tid)"
proof (rule bit_word_eqI)
  fix n
  have t: "take_bit 8 tid = tid" using assms by (rule small_id)
  have b: "bit tid (n - 3) \<Longrightarrow> n - 3 < 8" using low_bits [OF t, of "n - 3"] by auto
  show "bit (ucast (push_bit 3 tid) :: 64 word) n = bit (push_bit 3 (ucast tid) :: 64 word) n"
    using b by (auto simp add: bit_simps)
qed

subsection \<open>The clock loop in closed form\<close>

lemma unat_succ_less:
  fixes c n :: "64 word"
  assumes "c < n"
  shows "unat (c + 1) = Suc (unat c)"
proof -
  have "unat c < unat n" using assms by (simp add: word_less_nat_alt)
  moreover have "unat n < 2 ^ 64" using unsigned_less [of n] by simp
  moreover have "unat (c + 1) = (unat c + 1) mod 2 ^ 64" by (simp add: unat_word_ariths)
  ultimately show ?thesis by simp
qed

lemma advance_clock_loop_eq:
  "advance_clock_loop ofs c n =
     (if c < n then n else c,
      ofs @ concat (map (\<lambda>k. clock_cycle (c + of_nat k)) [0..<unat n - unat c]))"
proof (induction ofs c n rule: advance_clock_loop.induct)
  case (1 ofs c n)
  show ?case
  proof (cases "c < n")
    case False
    then have "unat n - unat c = 0"
      by (simp add: word_less_nat_alt)
    with False show ?thesis
      by (subst advance_clock_loop.simps) simp
  next
    case True
    then have lt: "unat c < unat n" by (simp add: word_less_nat_alt)
    have suc: "unat (c + 1) = Suc (unat c)" using True by (rule unat_succ_less)
    have fin: "(if c + 1 < n then n else c + 1) = n"
    proof (cases "c + 1 < n")
      case False
      then have "unat n \<le> unat (c + 1)" by (simp add: word_less_nat_alt)
      with lt suc have "unat (c + 1) = unat n" by simp
      then have "c + 1 = n" by (simp only: word_unat_eq_iff)
      with False show ?thesis by simp
    qed simp
    obtain m where m: "unat n - unat c = Suc m"
      using lt by (cases "unat n - unat c") auto
    then have m': "unat n - unat (c + 1) = m" using suc by simp
    have "[0..<Suc m] = 0 # map Suc [0..<m]"
      by (simp add: upt_conv_Cons map_Suc_upt del: upt_Suc)
    then have "concat (map (\<lambda>k. clock_cycle (c + of_nat k)) [0..<Suc m]) =
        clock_cycle c @ concat (map (\<lambda>k. clock_cycle (c + 1 + of_nat k)) [0..<m])"
      by (simp add: o_def add.assoc)
    with True "1.IH" [OF True] fin m m' show ?thesis
      by (subst advance_clock_loop.simps) simp
  qed
qed

lemma clock_cycle_no_x: "filter (\<lambda>l. l = ''bx 0'') (clock_cycle t) = []"
  by (simp add: clock_cycle_def)

lemma clock_gap_two_x: "length (filter (\<lambda>l. l = ''bx 0'') (clock_gap t)) = 2"
  by (simp add: clock_gap_def)

lemma concat_cycles_no_x:
  "filter (\<lambda>l. l = ''bx 0'') (concat (map (\<lambda>k. clock_cycle (f k)) ks)) = []"
  by (induction ks) (simp_all add: clock_cycle_no_x)


lemma digit10_value: "d < 10 \<Longrightarrow> (of_char (digit10 d) :: nat) = 48 + d"
proof -
  assume "d < 10"
  then have "d = 0 \<or> d = 1 \<or> d = 2 \<or> d = 3 \<or> d = 4 \<or> d = 5 \<or> d = 6
    \<or> d = 7 \<or> d = 8 \<or> d = 9"
    by arith
  then show ?thesis
    by (elim disjE) (simp_all add: digit10_def)
qed

lemma read_dec_snoc: "read_dec (ds @ [c]) = 10 * read_dec ds + (of_char c - 48)"
  by (simp add: read_dec_def)

lemma read_dec_dec: "read_dec (dec n) = n"
proof (induction n rule: dec.induct)
  case (1 n)
  show ?case
  proof (cases "n < 10")
    case True
    then show ?thesis
      by (subst dec.simps) (simp add: read_dec_def digit10_value)
  next
    case False
    have "n mod 10 < 10" by simp
    then have d: "(of_char (digit10 (n mod 10)) :: nat) = 48 + n mod 10"
      by (rule digit10_value)
    from False "1.IH" have "read_dec (dec (n div 10)) = n div 10" by simp
    with False d show ?thesis
      by (subst dec.simps) (simp add: read_dec_snoc)
  qed
qed

lemma timestamps_append: "timestamps (xs @ ys) = timestamps xs @ timestamps ys"
  by (simp add: timestamps_def)

lemma timestamps_cycle:
  "timestamps [CHR ''#'' # dec a, ''b0 0'', CHR ''#'' # dec b, ''b1 0''] = [a, b]"
  by (simp add: timestamps_def read_dec_dec)

lemma timestamps_gap:
  "timestamps [CHR ''#'' # dec a, ''bx 0'', CHR ''#'' # dec b, ''bx 0''] = [a, b]"
  by (simp add: timestamps_def read_dec_dec)

lemma advance_clock_gap_any:
  assumes "MAX_DELAY_CYCLES < next_time - cur_time"
  shows "advance_clock ofs cur_time next_time =
           (if next_time - MAX_DELAY_CYCLES < next_time then next_time
            else next_time - MAX_DELAY_CYCLES,
            ofs @ clock_gap cur_time @
            concat (map (\<lambda>k. clock_cycle (next_time - MAX_DELAY_CYCLES + of_nat k))
                      [0..<unat next_time - unat (next_time - MAX_DELAY_CYCLES)]))"
proof -
  have step1: "advance_clock ofs cur_time next_time =
      advance_clock_loop (ofs @ clock_gap cur_time) (next_time - MAX_DELAY_CYCLES) next_time"
    using assms by (simp only: advance_clock_def Let_def if_True)
  show ?thesis
    by (simp only: step1 advance_clock_loop_eq append_assoc)
qed

lemma length_concat_four:
  "length (concat (map (\<lambda>k. [a k, b k, c k, d k]) ks)) = 4 * length ks"
  by (induction ks) simp_all

subsection \<open>What the register traffic leaves untouched\<close>

lemma reg_write_globals:
  "reg_write h v s = (r, s') \<Longrightarrow> g_running s' = g_running s \<and> g_callback s' = g_callback s \<and> vcd s' = vcd s"
  by (auto simp add: reg_write_def split: prod.splits)

lemma reg_read_globals:
  "reg_read h s = (r, s') \<Longrightarrow> g_running s' = g_running s \<and> g_callback s' = g_callback s \<and> vcd s' = vcd s"
  by (auto simp add: reg_read_def split: prod.splits)

lemma reg_query_globals:
  "reg_query h v s = (r, s') \<Longrightarrow> g_running s' = g_running s \<and> g_callback s' = g_callback s \<and> vcd s' = vcd s"
  by (auto simp add: reg_query_def split: prod.splits sum.splits
      dest!: reg_write_globals reg_read_globals)

lemma write_taps_globals:
  "write_taps h cmd tids s = (r, s') \<Longrightarrow> g_running s' = g_running s \<and> g_callback s' = g_callback s \<and> vcd s' = vcd s"
proof (induction tids arbitrary: s)
  case Nil
  then show ?case by simp
next
  case (Cons tid tids)
  then show ?case
    by (auto split: prod.splits sum.splits dest!: reg_write_globals)
qed

lemma load_tap_info_globals:
  "load_tap_info h tap s = (r, s') \<Longrightarrow> g_running s' = g_running s \<and> g_callback s' = g_callback s \<and> vcd s' = vcd s"
  by (auto simp add: load_tap_info_def split: prod.splits sum.splits if_splits
      dest!: reg_query_globals)

lemma load_trace_info_globals:
  "load_trace_info h taps s = (r, s') \<Longrightarrow> g_running s' = g_running s \<and> g_callback s' = g_callback s \<and> vcd s' = vcd s"
proof (induction taps arbitrary: s r s')
  case Nil
  then show ?case by simp
next
  case (Cons tap taps)
  then show ?case
    by (fastforce split: prod.splits sum.splits dest!: load_tap_info_globals)
qed

lemma end_of_sample_globals:
  "end_of_sample h tap s = (out, tap', s') \<Longrightarrow> g_running s' = g_running s \<and> g_callback s' = g_callback s"
  by (auto simp add: end_of_sample_def Let_def split: prod.splits sum.splits if_splits
      dest!: reg_query_globals)

lemma dump_tap_next_globals:
  "dump_tap_next h tap st s = Next st' s' \<Longrightarrow> g_running s' = g_running s \<and> g_callback s' = g_callback s"
  "dump_tap_next h tap st s = Finished out tap' s' \<Longrightarrow> g_running s' = g_running s \<and> g_callback s' = g_callback s"
  by (auto simp add: dump_tap_next_def split: prod.splits sum.splits if_splits
      dest!: reg_query_globals)

lemma end_of_signal_globals:
  "end_of_signal h tap st s = Next st' s' \<Longrightarrow> g_running s' = g_running s \<and> g_callback s' = g_callback s"
  "end_of_signal h tap st s = Finished out tap' s' \<Longrightarrow> g_running s' = g_running s \<and> g_callback s' = g_callback s"
  unfolding end_of_signal_def Let_def
  by (auto split: prod.splits list.splits if_splits
      dest!: end_of_sample_globals dump_tap_next_globals)

lemma dump_tap_bit_globals:
  "dump_tap_bit h tap st s = Next st' s' \<Longrightarrow> g_running s' = g_running s \<and> g_callback s' = g_callback s"
  "dump_tap_bit h tap st s = Finished out tap' s' \<Longrightarrow> g_running s' = g_running s \<and> g_callback s' = g_callback s"
  unfolding dump_tap_bit_def Let_def
  by (auto split: if_splits dest!: end_of_signal_globals dump_tap_next_globals)

lemma dump_tap_bits_globals:
  "dump_tap_bits h tap st s = (out, tap', s') \<Longrightarrow>
     g_running s' = g_running s \<and> g_callback s' = g_callback s"
proof (induction h tap st s rule: dump_tap_bits.induct)
  case (1 h tap st s)
  show ?case
  proof (cases "dump_tap_bit h tap st s")
    case (Finished out1 tap1 s1)
    with "1.prems" have "s1 = s'"
      by (simp add: dump_tap_bits.simps [of h tap st s])
    with Finished show ?thesis
      by (auto dest: dump_tap_bit_globals)
  next
    case (Next st1 s1)
    with "1.prems" have "dump_tap_bits h tap st1 s1 = (out, tap', s')"
      by (simp add: dump_tap_bits.simps [of h tap st s])
    from "1.IH" [OF Next this] Next show ?thesis
      by (auto dest: dump_tap_bit_globals)
  qed
qed

lemma dump_tap_globals:
  "dump_tap h tap s = (out, tap', s') \<Longrightarrow>
     g_running s' = g_running s \<and> g_callback s' = g_callback s"
  unfolding dump_tap_def
  by (auto split: list.splits prod.splits sum.splits
      dest!: reg_query_globals dump_tap_bits_globals)

lemma dump_taps_globals:
  "dump_taps fuel h taps i cur_time sched s = Some (out, cur_time', taps', sched', s') \<Longrightarrow>
     g_running s' = g_running s \<and> g_callback s' = g_callback s"
proof (induction fuel arbitrary: taps i cur_time sched s)
  case 0
  then show ?case by simp
next
  case (Suc fuel)
  obtain c1 ofs where ac: "advance_clock (vcd s) cur_time (cycle_time (taps ! i)) = (c1, ofs)"
    by (cases "advance_clock (vcd s) cur_time (cycle_time (taps ! i))")
  obtain out1 tap1 s1 where dt: "dump_tap h (taps ! i) (s\<lparr>vcd := ofs\<rparr>) = (out1, tap1, s1)"
    by (cases "dump_tap h (taps ! i) (s\<lparr>vcd := ofs\<rparr>)")
  from dump_tap_globals [OF dt] have g: "g_running s1 = g_running s \<and> g_callback s1 = g_callback s"
    by simp
  from Suc.prems ac dt g Suc.IH show ?case
    by (auto simp add: Let_def split: if_splits option.splits)
qed

subsection \<open>A successful request\<close>

lemma reg_query_ok:
  assumes "registerWrite (g_callback s) h v (dev s) = (0, d1)"
    and "registerRead (g_callback s) h d1 = ((0, w), d2)"
  shows "reg_query h v s = (Inr w, s\<lparr>dev := d2, bus := bus s @ [BusWrite v, BusRead w]\<rparr>)"
  using assms by (simp add: reg_query_def reg_write_def reg_read_def)

subsection \<open>The header of two paths\<close>

lemma order_single:
  assumes "is_set_order order"
  shows "order [a] = [a]"
proof -
  from assms have s: "set (order [a]) = {a}" and d: "distinct (order [a])"
    by (simp_all add: is_set_order_def)
  from d have "length (order [a]) = card (set (order [a]))"
    by (simp add: distinct_card)
  with s have "length (order [a]) = 1" by simp
  then obtain x where "order [a] = [x]"
    by (cases "order [a]") auto
  with s show ?thesis by simp
qed

lemma order_pair:
  assumes "is_set_order order" and "a \<noteq> b"
  shows "order [a, b] = [a, b] \<or> order [a, b] = [b, a]"
proof -
  from assms have s: "set (order [a, b]) = {a, b}" and d: "distinct (order [a, b])"
    by (simp_all add: is_set_order_def)
  from d have "length (order [a, b]) = card (set (order [a, b]))"
    by (simp add: distinct_card)
  with s assms(2) have "length (order [a, b]) = 2" by simp
  then obtain x y where xy: "order [a, b] = [x, y]"
    by (cases "order [a, b]"; cases "tl (order [a, b])") auto
  with s d have "{x, y} = {a, b}" "x \<noteq> y" by auto
  then have "x = a \<and> y = b \<or> x = b \<and> y = a"
    by (auto simp add: doubleton_eq_iff)
  with xy show ?thesis by auto
qed

lemma dump_module_leaf:
  assumes "hierarchy name = None"
  shows "dump_module (Suc fuel) order ofs name hierarchy tails indentation =
    Some (ofs @ scope_block indentation name
            (case tails name of Some tap \<Rightarrow> signals tap | None \<Rightarrow> []) [])"
  using assms by (simp add: scope_block_def Let_def split: option.splits)

lemma split_paths:
  "split ''cpu.core.reg'' CHR ''.'' = [''cpu'', ''core'', ''reg'']"
  "split ''cpu.core.alu'' CHR ''.'' = [''cpu'', ''core'', ''alu'']"
  by (simp_all add: split_def)

subsection \<open>The scheduler and the merge loop\<close>

lemma find_earliest_prefix:
  "n \<le> length taps \<Longrightarrow>
   (case foldl (find_earliest_step taps) None [0..<n] of
      None \<Rightarrow> \<forall>k<n. \<not> pending (taps ! k)
    | Some e \<Rightarrow> e < n \<and> pending (taps ! e) \<and>
        (\<forall>k<n. pending (taps ! k) \<longrightarrow> cycle_time (taps ! e) \<le> cycle_time (taps ! k)))"
proof (induction n)
  case 0
  then show ?case by simp
next
  case (Suc n)
  define r where "r = foldl (find_earliest_step taps) None [0..<n]"
  have step: "foldl (find_earliest_step taps) None [0..<Suc n] = find_earliest_step taps r n"
    by (simp add: r_def)
  from Suc have IH: "case r of
      None \<Rightarrow> \<forall>k<n. \<not> pending (taps ! k)
    | Some e \<Rightarrow> e < n \<and> pending (taps ! e) \<and>
        (\<forall>k<n. pending (taps ! k) \<longrightarrow> cycle_time (taps ! e) \<le> cycle_time (taps ! k))"
    by (simp add: r_def)
  show ?case
    unfolding step
  proof (cases r)
    case None
    with IH show "case find_earliest_step taps r n of
      None \<Rightarrow> \<forall>k<Suc n. \<not> pending (taps ! k)
    | Some e \<Rightarrow> e < Suc n \<and> pending (taps ! e) \<and>
        (\<forall>k<Suc n. pending (taps ! k) \<longrightarrow> cycle_time (taps ! e) \<le> cycle_time (taps ! k))"
      by (auto simp add: find_earliest_step_def pending_def Let_def less_Suc_eq)
  next
    case (Some e)
    with IH show "case find_earliest_step taps r n of
      None \<Rightarrow> \<forall>k<Suc n. \<not> pending (taps ! k)
    | Some e \<Rightarrow> e < Suc n \<and> pending (taps ! e) \<and>
        (\<forall>k<Suc n. pending (taps ! k) \<longrightarrow> cycle_time (taps ! e) \<le> cycle_time (taps ! k))"
      by (auto simp add: find_earliest_step_def pending_def Let_def less_Suc_eq)
  qed
qed

lemma find_earliest_Some:
  assumes "find_earliest_tap taps = Some i"
  shows "i < length taps \<and> pending (taps ! i) \<and>
    (\<forall>k<length taps. pending (taps ! k) \<longrightarrow> cycle_time (taps ! i) \<le> cycle_time (taps ! k))"
  using find_earliest_prefix [of "length taps" taps] assms
  by (simp add: find_earliest_tap_def)

lemma find_earliest_None:
  assumes "find_earliest_tap taps = None"
  shows "\<forall>k<length taps. \<not> pending (taps ! k)"
  using find_earliest_prefix [of "length taps" taps] assms
  by (simp add: find_earliest_tap_def)

lemma end_of_sample_frame:
  "end_of_sample h tap s = (out, tap', s') \<Longrightarrow>
     \<exists>ct. tap' = tap\<lparr>cur_sample := cur_sample tap + 1, cycle_time := ct\<rparr>"
  by (auto simp add: end_of_sample_def Let_def split: if_splits prod.splits sum.splits
      intro: exI [of _ "cycle_time tap"])

lemma dump_tap_next_frame:
  "dump_tap_next h tap st s = Finished out tap' s' \<Longrightarrow> tap' = tap"
  by (auto simp add: dump_tap_next_def split: if_splits prod.splits sum.splits)

lemma end_of_signal_frame:
  "end_of_signal h tap st s = Finished out tap' s' \<Longrightarrow>
     tap' = tap \<or> (\<exists>ct. tap' = tap\<lparr>cur_sample := cur_sample tap + 1, cycle_time := ct\<rparr>)"
  unfolding end_of_signal_def Let_def
  by (auto split: if_splits list.splits prod.splits
      dest!: end_of_sample_frame dump_tap_next_frame)

lemma dump_tap_bit_frame:
  "dump_tap_bit h tap st s = Finished out tap' s' \<Longrightarrow>
     tap' = tap \<or> (\<exists>ct. tap' = tap\<lparr>cur_sample := cur_sample tap + 1, cycle_time := ct\<rparr>)"
  unfolding dump_tap_bit_def Let_def
  by (auto split: if_splits dest!: end_of_signal_frame dump_tap_next_frame)

lemma dump_tap_bits_frame:
  "dump_tap_bits h tap st s = (out, tap', s') \<Longrightarrow>
     tap' = tap \<or> (\<exists>ct. tap' = tap\<lparr>cur_sample := cur_sample tap + 1, cycle_time := ct\<rparr>)"
proof (induction h tap st s rule: dump_tap_bits.induct)
  case (1 h tap st s)
  show ?case
  proof (cases "dump_tap_bit h tap st s")
    case (Finished out1 tap1 s1)
    with "1.prems" have "tap1 = tap'"
      by (simp add: dump_tap_bits.simps [of h tap st s])
    with Finished show ?thesis
      by (auto dest: dump_tap_bit_frame)
  next
    case (Next st1 s1)
    with "1.prems" have "dump_tap_bits h tap st1 s1 = (out, tap', s')"
      by (simp add: dump_tap_bits.simps [of h tap st s])
    from "1.IH" [OF Next this] show ?thesis .
  qed
qed

lemma dump_tap_frame:
  "dump_tap h tap s = (out, tap', s') \<Longrightarrow>
     tap' = tap \<or> (\<exists>ct. tap' = tap\<lparr>cur_sample := cur_sample tap + 1, cycle_time := ct\<rparr>)"
  unfolding dump_tap_def
  by (auto split: list.splits prod.splits sum.splits dest!: dump_tap_bits_frame)

lemma dump_tap_samples:
  "dump_tap h tap s = (out, tap', s') \<Longrightarrow> samples tap' = samples tap"
  by (auto dest!: dump_tap_frame)


lemma dump_taps_step:
  "dump_taps (Suc fuel) h taps i cur_time sched s =
     (let c1 = fst (advance_clock (vcd s) cur_time (cycle_time (taps ! i)));
          r = dump_tap h (taps ! i)
                (s\<lparr>vcd := snd (advance_clock (vcd s) cur_time (cycle_time (taps ! i)))\<rparr>);
          taps1 = taps[i := fst (snd r)];
          sched1 = sched @ [(i, cycle_time (taps ! i), cycle_time (fst (snd r)))]
      in if fst r \<noteq> Returned 0 then Some (fst r, c1, taps1, sched1, snd (snd r))
         else (case find_earliest_tap taps1 of
                 Some j \<Rightarrow> dump_taps fuel h taps1 j c1 sched1 (snd (snd r))
               | None \<Rightarrow> Some (Returned 0, c1, taps1, sched1, snd (snd r))))"
proof -
  obtain c ofs where a: "advance_clock (vcd s) cur_time (cycle_time (taps ! i)) = (c, ofs)"
    by (cases "advance_clock (vcd s) cur_time (cycle_time (taps ! i))")
  obtain out tap1 s1 where d: "dump_tap h (taps ! i) (s\<lparr>vcd := ofs\<rparr>) = (out, tap1, s1)"
    by (cases "dump_tap h (taps ! i) (s\<lparr>vcd := ofs\<rparr>)")
  show ?thesis
    by (simp add: a d Let_def split: option.split)
qed



lemma dump_taps_skips_empty:
  assumes "dump_taps fuel h taps i cur_time sched0 s = Some (out, cur_time', taps', sched, s')"
    and "find_earliest_tap taps = Some i"
    and "k < length taps" and "samples (taps ! k) = 0"
    and "k \<notin> fst ` set sched0"
  shows "k \<notin> fst ` set sched \<and> taps' ! k = taps ! k"
  using assms
proof (induction fuel arbitrary: taps i cur_time sched0 s)
  case 0
  then show ?case by simp
next
  case (Suc fuel)
  note fi = find_earliest_Some [OF Suc.prems(2)]
  from fi Suc.prems(4) have ne: "i \<noteq> k"
    by (auto simp add: pending_def)
  define r where "r = dump_tap h (taps ! i)
      (s\<lparr>vcd := snd (advance_clock (vcd s) cur_time (cycle_time (taps ! i)))\<rparr>)"
  define taps1 where "taps1 = taps[i := fst (snd r)]"
  define sched1 where "sched1 = sched0 @ [(i, cycle_time (taps ! i), cycle_time (fst (snd r)))]"
  have k1: "taps1 ! k = taps ! k" "k < length taps1" "k \<notin> fst ` set sched1"
    using ne Suc.prems(3,5) by (auto simp add: taps1_def sched1_def)
  from Suc.prems(1) have run:
    "(if fst r \<noteq> Returned 0
      then Some (fst r, fst (advance_clock (vcd s) cur_time (cycle_time (taps ! i))),
                 taps1, sched1, snd (snd r))
      else (case find_earliest_tap taps1 of
              Some j \<Rightarrow> dump_taps fuel h taps1 j
                  (fst (advance_clock (vcd s) cur_time (cycle_time (taps ! i)))) sched1
                  (snd (snd r))
            | None \<Rightarrow> Some (Returned 0,
                  fst (advance_clock (vcd s) cur_time (cycle_time (taps ! i))),
                  taps1, sched1, snd (snd r))))
     = Some (out, cur_time', taps', sched, s')"
    unfolding dump_taps_step Let_def r_def taps1_def sched1_def .
  show ?case
  proof (cases "fst r \<noteq> Returned 0 \<or> find_earliest_tap taps1 = None")
    case True
    with run have "sched = sched1" "taps' = taps1"
      by (auto split: if_splits)
    with k1 show ?thesis by simp
  next
    case False
    then obtain j where j: "find_earliest_tap taps1 = Some j" and ok: "fst r = Returned 0"
      by auto
    with run have rec: "dump_taps fuel h taps1 j
        (fst (advance_clock (vcd s) cur_time (cycle_time (taps ! i)))) sched1 (snd (snd r))
        = Some (out, cur_time', taps', sched, s')"
      by simp
    from Suc.IH [OF rec j k1(2) _ k1(3)] k1(1) Suc.prems(4) show ?thesis
      by simp
  qed
qed

subsection \<open>A device that answers zero\<close>

lemma reg_write_always_ok:
  assumes "\<forall>v d. fst (registerWrite (g_callback s) h v d) = 0"
  shows "\<exists>d. reg_write h v s = (Inr (), s\<lparr>dev := d, bus := bus s @ [BusWrite v]\<rparr>)"
proof -
  obtain e d where w: "registerWrite (g_callback s) h v (dev s) = (e, d)"
    by (cases "registerWrite (g_callback s) h v (dev s)")
  with assms have "e = 0"
    by (metis fst_conv)
  with w show ?thesis
    by (auto simp add: reg_write_def)
qed

lemma write_taps_always_ok:
  assumes "\<forall>v d. fst (registerWrite (g_callback s) h v d) = 0"
  shows "\<exists>d. write_taps h cmd tids s =
    (Inr (), s\<lparr>dev := d, bus := bus s @ map (\<lambda>tid. BusWrite (cmd tid)) tids\<rparr>)"
  using assms
proof (induction tids arbitrary: s)
  case Nil
  show ?case
    by (auto intro: exI [of _ "dev s"])
next
  case (Cons tid tids)
  from reg_write_always_ok [OF Cons.prems, of "cmd tid"] obtain d where
    w: "reg_write h (cmd tid) s = (Inr (), s\<lparr>dev := d, bus := bus s @ [BusWrite (cmd tid)]\<rparr>)"
    by blast
  let ?s1 = "s\<lparr>dev := d, bus := bus s @ [BusWrite (cmd tid)]\<rparr>"
  have "\<forall>v d. fst (registerWrite (g_callback ?s1) h v d) = 0"
    using Cons.prems by simp
  from Cons.IH [OF this] obtain d' where
    "write_taps h cmd tids ?s1 =
      (Inr (), ?s1\<lparr>dev := d', bus := bus ?s1 @ map (\<lambda>tid. BusWrite (cmd tid)) tids\<rparr>)"
    by blast
  with w show ?case
    by (auto intro: exI [of _ d'])
qed

lemma load_tap_info_zero:
  assumes "registerWrite (g_callback s) h (cmd_count (tap_id tap)) (dev s) = (0, d1)"
    and "registerRead (g_callback s) h d1 = ((0, 0), d2)"
  shows "load_tap_info h tap s =
    (Inr tap, s\<lparr>dev := d2, bus := bus s @ [BusWrite (cmd_count (tap_id tap)), BusRead 0]\<rparr>)"
  unfolding load_tap_info_def reg_query_ok [OF assms]
  by simp

lemma load_trace_info_all_zero:
  assumes "\<forall>v d. fst (registerWrite (g_callback s) h v d) = 0"
    and "\<forall>d. fst (registerRead (g_callback s) h d) = (0, 0)"
  shows "\<exists>d. load_trace_info h taps s =
    (Inr taps, s\<lparr>dev := d,
       bus := bus s @ concat (map (\<lambda>tap. [BusWrite (cmd_count (tap_id tap)), BusRead 0]) taps)\<rparr>)"
  using assms
proof (induction taps arbitrary: s)
  case Nil
  show ?case
    by (auto intro: exI [of _ "dev s"])
next
  case (Cons tap taps)
  obtain e d1 where w: "registerWrite (g_callback s) h (cmd_count (tap_id tap)) (dev s) = (e, d1)"
    by (cases "registerWrite (g_callback s) h (cmd_count (tap_id tap)) (dev s)")
  with Cons.prems(1) have e: "e = 0"
    by (metis fst_conv)
  obtain r d2 where rd: "registerRead (g_callback s) h d1 = (r, d2)"
    by (cases "registerRead (g_callback s) h d1")
  with Cons.prems(2) have r: "r = (0, 0)"
    by (metis fst_conv)
  let ?s1 = "s\<lparr>dev := d2, bus := bus s @ [BusWrite (cmd_count (tap_id tap)), BusRead 0]\<rparr>"
  have l: "load_tap_info h tap s = (Inr tap, ?s1)"
    using w rd unfolding e r by (rule load_tap_info_zero)
  have "\<forall>v d. fst (registerWrite (g_callback ?s1) h v d) = 0"
    "\<forall>d. fst (registerRead (g_callback ?s1) h d) = (0, 0)"
    using Cons.prems by simp_all
  from Cons.IH [OF this] obtain d' where
    "load_trace_info h taps ?s1 =
      (Inr taps, ?s1\<lparr>dev := d',
         bus := bus ?s1 @
           concat (map (\<lambda>tap. [BusWrite (cmd_count (tap_id tap)), BusRead 0]) taps)\<rparr>)"
    by blast
  with l show ?case
    by (auto intro: exI [of _ d'])
qed

lemma load_signals_fst: "load_taps jtaps n = taps \<Longrightarrow>
    map tap_id taps = map j_id jtaps \<and> (\<forall>tap \<in> set taps. samples tap = 0)"
proof (induction jtaps arbitrary: n taps)
  case Nil
  then show ?case by auto
next
  case (Cons jtap jtaps)
  then show ?case
    by (auto split: prod.splits)
qed

lemma find_earliest_all_empty:
  assumes "\<forall>tap \<in> set taps. samples tap = 0"
  shows "find_earliest_tap taps = None"
proof (cases "find_earliest_tap taps")
  case (Some i)
  from find_earliest_Some [OF Some] assms show ?thesis
    by (auto simp add: pending_def)
qed simp

lemma map_ids_bus:
  "map tap_id taps = map j_id jtaps \<Longrightarrow>
   concat (map (\<lambda>tap. [BusWrite (cmd_count (tap_id tap)), BusRead 0]) taps) =
   concat (map (\<lambda>jtap. [BusWrite (cmd_count (j_id jtap)), BusRead 0]) jtaps)"
proof (induction taps arbitrary: jtaps)
  case Nil
  then show ?case by simp
next
  case (Cons tap taps)
  then show ?case by (cases jtaps) auto
qed

subsection \<open>The loop that loads the trace information\<close>

lemma load_tap_info_loaded:
  assumes "registerWrite (g_callback s) h (cmd_count (tap_id tap)) (dev s) = (0, d1)"
    and "registerRead (g_callback s) h d1 = ((0, count), d2)"
    and "count \<noteq> 0"
    and "registerWrite (g_callback s) h (cmd_get_start (tap_id tap)) d2 = (0, d3)"
    and "registerRead (g_callback s) h d3 = ((0, start), d4)"
    and "registerWrite (g_callback s) h (cmd_data (tap_id tap)) d4 = (0, d5)"
    and "registerRead (g_callback s) h d5 = ((0, delta), d6)"
  shows "load_tap_info h tap s =
    (Inr (tap\<lparr>samples := ucast count, cycle_time := 1 + start + delta\<rparr>),
     s\<lparr>dev := d6,
       bus := bus s @
         [BusWrite (cmd_count (tap_id tap)), BusRead count,
          BusWrite (cmd_get_start (tap_id tap)), BusRead start,
          BusWrite (cmd_data (tap_id tap)), BusRead delta]\<rparr>)"
proof -
  let ?s1 = "s\<lparr>dev := d2, bus := bus s @ [BusWrite (cmd_count (tap_id tap)), BusRead count]\<rparr>"
  let ?s2 = "?s1\<lparr>dev := d4,
      bus := bus ?s1 @ [BusWrite (cmd_get_start (tap_id tap)), BusRead start]\<rparr>"
  have q1: "reg_query h (cmd_count (tap_id tap)) s = (Inr count, ?s1)"
    using assms(1,2) by (rule reg_query_ok)
  have q2: "reg_query h (cmd_get_start (tap_id tap)) ?s1 = (Inr start, ?s2)"
    by (rule reg_query_ok [where ?d1.0 = d3]) (simp_all add: assms)
  have q3: "reg_query h (cmd_data (tap_id tap)) ?s2 =
      (Inr delta, ?s2\<lparr>dev := d6, bus := bus ?s2 @ [BusWrite (cmd_data (tap_id tap)), BusRead delta]\<rparr>)"
    by (rule reg_query_ok [where ?d1.0 = d5]) (simp_all add: assms)
  show ?thesis
    unfolding load_tap_info_def q1
    using assms(3) q2 q3 by simp
qed

lemma load_trace_info_append:
  "load_trace_info h (pre @ post) s =
     (case load_trace_info h pre s of
        (Inl err, s1) \<Rightarrow> (Inl err, s1)
      | (Inr pre', s1) \<Rightarrow>
          (case load_trace_info h post s1 of
             (Inl err, s2) \<Rightarrow> (Inl err, s2)
           | (Inr post', s2) \<Rightarrow> (Inr (pre' @ post'), s2)))"
proof (induction pre arbitrary: s)
  case Nil
  show ?case
    by (simp split: prod.splits sum.splits)
next
  case (Cons tap pre)
  show ?case
    by (simp add: Cons.IH split: prod.splits sum.splits)
qed

lemma reg_query_bus:
  "reg_query h v s = (r, s') \<Longrightarrow> \<exists>rest. bus s' = bus s @ BusWrite v # rest"
  by (auto simp add: reg_query_def reg_write_def reg_read_def split: prod.splits if_splits)

lemma load_tap_info_bus:
  "load_tap_info h tap s = (r, s') \<Longrightarrow>
     \<exists>rest. bus s' = bus s @ BusWrite (cmd_count (tap_id tap)) # rest"
  unfolding load_tap_info_def
  by (auto split: prod.splits sum.splits if_splits dest!: reg_query_bus)

lemma load_trace_info_bus:
  "load_trace_info h taps s = (r, s') \<Longrightarrow>
     \<exists>rest. bus s' = bus s @
       (case taps of [] \<Rightarrow> [] | tap # _ \<Rightarrow> BusWrite (cmd_count (tap_id tap)) # rest)"
proof (induction taps arbitrary: s r s')
  case Nil
  then show ?case by simp
next
  case (Cons tap taps)
  obtain r1 s1 where l: "load_tap_info h tap s = (r1, s1)"
    by (cases "load_tap_info h tap s")
  from load_tap_info_bus [OF l] obtain rest1 where
    b1: "bus s1 = bus s @ BusWrite (cmd_count (tap_id tap)) # rest1"
    by blast
  show ?case
  proof (cases r1)
    case (Inl err)
    with Cons.prems l have "s' = s1" by simp
    with b1 show ?thesis by simp
  next
    case (Inr tap1)
    obtain r2 s2 where t: "load_trace_info h taps s1 = (r2, s2)"
      by (cases "load_trace_info h taps s1")
    from Cons.IH [OF t] obtain rest2 where
      b2: "bus s2 = bus s1 @
        (case taps of [] \<Rightarrow> [] | tap # _ \<Rightarrow> BusWrite (cmd_count (tap_id tap)) # rest2)"
      by blast
    from Cons.prems l Inr t have "s' = s2"
      by (auto split: sum.splits)
    with b1 b2 show ?thesis by simp
  qed
qed

subsection \<open>A vector with and without a tap that has no samples\<close>

lemma find_earliest_first_prefix:
  "n \<le> length taps \<Longrightarrow>
   (case foldl (find_earliest_step taps) None [0..<n] of
      None \<Rightarrow> True
    | Some e \<Rightarrow> \<forall>k<e. pending (taps ! k) \<longrightarrow> cycle_time (taps ! e) < cycle_time (taps ! k))"
proof (induction n)
  case 0
  then show ?case by simp
next
  case (Suc n)
  define r where "r = foldl (find_earliest_step taps) None [0..<n]"
  have step: "foldl (find_earliest_step taps) None [0..<Suc n] = find_earliest_step taps r n"
    by (simp add: r_def)
  from Suc have IH: "case r of
      None \<Rightarrow> True
    | Some e \<Rightarrow> \<forall>k<e. pending (taps ! k) \<longrightarrow> cycle_time (taps ! e) < cycle_time (taps ! k)"
    by (simp add: r_def)
  from Suc.prems have "n \<le> length taps" by simp
  from find_earliest_prefix [OF this] have P: "case r of
      None \<Rightarrow> \<forall>k<n. \<not> pending (taps ! k)
    | Some e \<Rightarrow> e < n \<and> pending (taps ! e) \<and>
        (\<forall>k<n. pending (taps ! k) \<longrightarrow> cycle_time (taps ! e) \<le> cycle_time (taps ! k))"
    by (simp add: r_def)
  show ?case
    unfolding step
  proof (cases r)
    case None
    with P show "case find_earliest_step taps r n of
      None \<Rightarrow> True
    | Some e \<Rightarrow> \<forall>k<e. pending (taps ! k) \<longrightarrow> cycle_time (taps ! e) < cycle_time (taps ! k)"
      by (auto simp add: find_earliest_step_def pending_def Let_def)
  next
    case (Some e)
    with IH P show "case find_earliest_step taps r n of
      None \<Rightarrow> True
    | Some e \<Rightarrow> \<forall>k<e. pending (taps ! k) \<longrightarrow> cycle_time (taps ! e) < cycle_time (taps ! k)"
      by (fastforce simp add: find_earliest_step_def pending_def Let_def)
  qed
qed

lemma find_earliest_first:
  assumes "find_earliest_tap taps = Some i"
  shows "\<forall>k<i. pending (taps ! k) \<longrightarrow> cycle_time (taps ! i) < cycle_time (taps ! k)"
  using find_earliest_first_prefix [of "length taps" taps] assms
  by (simp add: find_earliest_tap_def)

lemma find_earliest_unique:
  assumes "i < length taps" and "pending (taps ! i)"
    and "\<forall>k<length taps. pending (taps ! k) \<longrightarrow> cycle_time (taps ! i) \<le> cycle_time (taps ! k)"
    and "\<forall>k<i. pending (taps ! k) \<longrightarrow> cycle_time (taps ! i) < cycle_time (taps ! k)"
  shows "find_earliest_tap taps = Some i"
proof (cases "find_earliest_tap taps")
  case None
  from find_earliest_None [OF None] assms(1,2) show ?thesis
    by auto
next
  case (Some e)
  note pe = find_earliest_Some [OF Some]
  note fe = find_earliest_first [OF Some]
  have "e = i"
  proof (rule ccontr)
    assume "e \<noteq> i"
    then consider "e < i" | "i < e" by linarith
    then show False
    proof cases
      case 1
      with assms(4) pe have "cycle_time (taps ! i) < cycle_time (taps ! e)" by simp
      moreover from pe assms(1,2) have "cycle_time (taps ! e) \<le> cycle_time (taps ! i)" by simp
      ultimately show False by simp
    next
      case 2
      with fe assms(2) have "cycle_time (taps ! e) < cycle_time (taps ! i)" by simp
      moreover from assms(3) pe have "cycle_time (taps ! i) \<le> cycle_time (taps ! e)" by simp
      ultimately show False by simp
    qed
  qed
  with Some show ?thesis by simp
qed

lemma nth_without:
  "i < length (pre @ post) \<Longrightarrow>
     (pre @ x # post) ! (if i < length pre then i else Suc i) = (pre @ post) ! i"
  by (simp add: nth_append Suc_diff_le)

lemma index_without:
  assumes "k < length (pre @ x # post)" and "k \<noteq> length pre"
  shows "\<exists>k'. k' < length (pre @ post) \<and> k = (if k' < length pre then k' else Suc k')"
proof (cases "k < length pre")
  case True
  then show ?thesis
    by (intro exI [of _ k]) simp
next
  case False
  with assms show ?thesis
    by (intro exI [of _ "k - 1"]) auto
qed

lemma find_earliest_without:
  assumes "samples x = 0"
  shows "find_earliest_tap (pre @ x # post) =
     map_option (\<lambda>i. if i < length pre then i else Suc i) (find_earliest_tap (pre @ post))"
proof -
  define up where "up = (\<lambda>i. if i < length pre then i else Suc i)"
  have nth: "(pre @ x # post) ! up i = (pre @ post) ! i" if "i < length (pre @ post)" for i
    unfolding up_def using that by (rule nth_without)
  have idle: "\<not> pending ((pre @ x # post) ! length pre)"
    using assms by (simp add: pending_def)
  have idx: "\<exists>k'. k' < length (pre @ post) \<and> k = up k'"
    if "k < length (pre @ x # post)" "k \<noteq> length pre" for k
    unfolding up_def using that by (rule index_without)
  have mono: "up a < up b \<longleftrightarrow> a < b" for a b
    by (auto simp add: up_def)
  show ?thesis
  proof (cases "find_earliest_tap (pre @ post)")
    case None
    note np = find_earliest_None [OF None]
    have "find_earliest_tap (pre @ x # post) = None"
    proof (cases "find_earliest_tap (pre @ x # post)")
      case (Some e)
      from find_earliest_Some [OF Some] have e: "e < length (pre @ x # post)"
        and pe: "pending ((pre @ x # post) ! e)"
        by simp_all
      from pe idle have "e \<noteq> length pre" by auto
      from idx [OF e this] obtain k' where k': "k' < length (pre @ post)" "e = up k'"
        by blast
      with pe nth [OF k'(1)] np show ?thesis
        by simp
    qed simp
    with None show ?thesis by simp
  next
    case (Some i)
    note pi = find_earliest_Some [OF Some]
    note fi = find_earliest_first [OF Some]
    from pi have i: "i < length (pre @ post)" by simp
    have 1: "up i < length (pre @ x # post)"
      using i by (auto simp add: up_def)
    have 2: "pending ((pre @ x # post) ! up i)"
      using pi nth [OF i] by simp
    have 3: "\<forall>k<length (pre @ x # post). pending ((pre @ x # post) ! k) \<longrightarrow>
        cycle_time ((pre @ x # post) ! up i) \<le> cycle_time ((pre @ x # post) ! k)"
    proof (intro allI impI)
      fix k assume k: "k < length (pre @ x # post)" and pk: "pending ((pre @ x # post) ! k)"
      from pk idle have "k \<noteq> length pre" by auto
      from idx [OF k this] obtain k' where k': "k' < length (pre @ post)" "k = up k'"
        by blast
      with pk nth [OF k'(1)] have "pending ((pre @ post) ! k')" by simp
      with pi k' have "cycle_time ((pre @ post) ! i) \<le> cycle_time ((pre @ post) ! k')"
        by simp
      with nth [OF i] nth [OF k'(1)] k'(2)
      show "cycle_time ((pre @ x # post) ! up i) \<le> cycle_time ((pre @ x # post) ! k)"
        by simp
    qed
    have 4: "\<forall>k<up i. pending ((pre @ x # post) ! k) \<longrightarrow>
        cycle_time ((pre @ x # post) ! up i) < cycle_time ((pre @ x # post) ! k)"
    proof (intro allI impI)
      fix k assume k: "k < up i" and pk: "pending ((pre @ x # post) ! k)"
      from pk idle have ne: "k \<noteq> length pre" by auto
      from k 1 have "k < length (pre @ x # post)" by simp
      from idx [OF this ne] obtain k' where k': "k' < length (pre @ post)" "k = up k'"
        by blast
      with k mono have lt: "k' < i" by simp
      from pk k' nth [OF k'(1)] have "pending ((pre @ post) ! k')" by simp
      with fi lt have "cycle_time ((pre @ post) ! i) < cycle_time ((pre @ post) ! k')"
        by simp
      with nth [OF i] nth [OF k'(1)] k'(2)
      show "cycle_time ((pre @ x # post) ! up i) < cycle_time ((pre @ x # post) ! k)"
        by simp
    qed
    from find_earliest_unique [OF 1 2 3 4] Some show ?thesis
      by (simp add: up_def)
  qed
qed

lemma dump_taps_without:
  assumes "samples x = 0" and "i < length (pre @ post)"
  shows "map_option (\<lambda>(out, c, taps', sched, s'). (out, c, s'))
           (dump_taps fuel h (pre @ x # post) (if i < length pre then i else Suc i)
              cur_time schedA s) =
         map_option (\<lambda>(out, c, taps', sched, s'). (out, c, s'))
           (dump_taps fuel h (pre @ post) i cur_time schedB s)"
  using assms(2)
proof (induction fuel arbitrary: pre post i cur_time schedA schedB s)
  case 0
  show ?case by simp
next
  case (Suc fuel)
  let ?up = "if i < length pre then i else Suc i"
  have nth: "(pre @ x # post) ! ?up = (pre @ post) ! i"
    using Suc.prems by (rule nth_without)
  define tap where "tap = (pre @ post) ! i"
  define r where "r = dump_tap h tap
      (s\<lparr>vcd := snd (advance_clock (vcd s) cur_time (cycle_time tap))\<rparr>)"
  define c1 where "c1 = fst (advance_clock (vcd s) cur_time (cycle_time tap))"
  define pre1 where "pre1 = (if i < length pre then pre[i := fst (snd r)] else pre)"
  define post1 where "post1 = (if i < length pre then post else post[i - length pre := fst (snd r)])"
  have len: "length pre1 = length pre" "length (pre1 @ post1) = length (pre @ post)"
    by (simp_all add: pre1_def post1_def)
  have updA: "(pre @ x # post)[?up := fst (snd r)] = pre1 @ x # post1"
    by (simp add: pre1_def post1_def list_update_append Suc_diff_le)
  have updB: "(pre @ post)[i := fst (snd r)] = pre1 @ post1"
    by (simp add: pre1_def post1_def list_update_append)
  have fe: "find_earliest_tap (pre1 @ x # post1) =
      map_option (\<lambda>j. if j < length pre1 then j else Suc j) (find_earliest_tap (pre1 @ post1))"
    using assms(1) by (rule find_earliest_without)
  have A: "dump_taps (Suc fuel) h (pre @ x # post) ?up cur_time schedA s =
     (if fst r \<noteq> Returned 0
      then Some (fst r, c1, pre1 @ x # post1,
                 schedA @ [(?up, cycle_time tap, cycle_time (fst (snd r)))], snd (snd r))
      else (case find_earliest_tap (pre1 @ x # post1) of
              Some j \<Rightarrow> dump_taps fuel h (pre1 @ x # post1) j c1
                  (schedA @ [(?up, cycle_time tap, cycle_time (fst (snd r)))]) (snd (snd r))
            | None \<Rightarrow> Some (Returned 0, c1, pre1 @ x # post1,
                  schedA @ [(?up, cycle_time tap, cycle_time (fst (snd r)))], snd (snd r))))"
    unfolding dump_taps_step Let_def nth updA [unfolded nth]
    unfolding tap_def [symmetric] r_def [symmetric] c1_def [symmetric] updA ..
  have B: "dump_taps (Suc fuel) h (pre @ post) i cur_time schedB s =
     (if fst r \<noteq> Returned 0
      then Some (fst r, c1, pre1 @ post1,
                 schedB @ [(i, cycle_time tap, cycle_time (fst (snd r)))], snd (snd r))
      else (case find_earliest_tap (pre1 @ post1) of
              Some j \<Rightarrow> dump_taps fuel h (pre1 @ post1) j c1
                  (schedB @ [(i, cycle_time tap, cycle_time (fst (snd r)))]) (snd (snd r))
            | None \<Rightarrow> Some (Returned 0, c1, pre1 @ post1,
                  schedB @ [(i, cycle_time tap, cycle_time (fst (snd r)))], snd (snd r))))"
    unfolding dump_taps_step Let_def
    unfolding tap_def [symmetric] r_def [symmetric] c1_def [symmetric] updB ..
  show ?case
  proof (cases "fst r \<noteq> Returned 0")
    case True
    then show ?thesis
      unfolding A B by simp
  next
    case False
    show ?thesis
    proof (cases "find_earliest_tap (pre1 @ post1)")
      case None
      with False fe show ?thesis
        unfolding A B by simp
    next
      case (Some j)
      from find_earliest_Some [OF Some] have j: "j < length (pre1 @ post1)"
        by simp
      from Suc.IH [OF j] False fe Some show ?thesis
        unfolding A B by simp
    qed
  qed
qed


lemma load_trace_info_length:
  "load_trace_info h taps s = (Inr taps', s') \<Longrightarrow> length taps' = length taps"
proof (induction taps arbitrary: s taps' s')
  case Nil
  then show ?case by simp
next
  case (Cons tap taps)
  then show ?case
    by (fastforce split: prod.splits sum.splits)
qed

lemma stop_tail:
  assumes "g_running s" and "manifest env = FileTaps jtaps"
    and "write_taps h cmd_stop0 (map tap_id (load_taps jtaps 1)) (s\<lparr>g_running := False\<rparr>)
           = (Inr (), s1)"
    and "load_trace_info h (load_taps jtaps 1) s1 = (Inr taps, s3)"
  shows "vx_scope_stop fuel env (Some h) s =
           (case dump_header fuel (set_order env) [] taps of
              None \<Rightarrow> None
            | Some (Inl f) \<Rightarrow> Some (Undefined f, s3\<lparr>vcd := []\<rparr>)
            | Some (Inr ofs) \<Rightarrow>
                (case find_earliest_tap taps of
                   None \<Rightarrow> Some (Returned 0, s3\<lparr>vcd := ofs\<rparr>)
                 | Some i \<Rightarrow>
                     (case dump_taps fuel h taps i 0 [] (s3\<lparr>vcd := ofs\<rparr>) of
                        None \<Rightarrow> None
                      | Some (out, cur_time, taps1, sched, s4) \<Rightarrow>
                          if out \<noteq> Returned 0 then Some (out, s4)
                          else Some (Returned 0,
                                 s4\<lparr>vcd := snd (advance_clock (vcd s4) cur_time
                                                  (cur_time + 1))\<rparr>))))"
  unfolding vx_scope_stop_def
  by (simp add: assms Let_def)

lemma merge_without:
  assumes "samples x = 0"
  shows
    "(case find_earliest_tap (pre @ x # post) of
        None \<Rightarrow> Some (Returned 0, s)
      | Some i \<Rightarrow>
          (case dump_taps fuel h (pre @ x # post) i 0 [] s of
             None \<Rightarrow> None
           | Some (out, cur_time, taps1, sched, s4) \<Rightarrow>
               if out \<noteq> Returned 0 then Some (out, s4)
               else Some (Returned 0,
                      s4\<lparr>vcd := snd (advance_clock (vcd s4) cur_time (cur_time + 1))\<rparr>))) =
     (case find_earliest_tap (pre @ post) of
        None \<Rightarrow> Some (Returned 0, s)
      | Some i \<Rightarrow>
          (case dump_taps fuel h (pre @ post) i 0 [] s of
             None \<Rightarrow> None
           | Some (out, cur_time, taps1, sched, s4) \<Rightarrow>
               if out \<noteq> Returned 0 then Some (out, s4)
               else Some (Returned 0,
                      s4\<lparr>vcd := snd (advance_clock (vcd s4) cur_time (cur_time + 1))\<rparr>)))"
proof (cases "find_earliest_tap (pre @ post)")
  case None
  with find_earliest_without [OF assms, of pre post] show ?thesis
    by simp
next
  case (Some i)
  let ?up = "if i < length pre then i else Suc i"
  from find_earliest_Some [OF Some] have i: "i < length (pre @ post)"
    by simp
  from find_earliest_without [OF assms, of pre post] Some
  have feA: "find_earliest_tap (pre @ x # post) = Some ?up"
    by simp
  note eq = dump_taps_without [OF assms i, of fuel h 0 "[]" s "[]"]
  show ?thesis
  proof (cases "dump_taps fuel h (pre @ post) i 0 [] s")
    case None
    with eq have "dump_taps fuel h (pre @ x # post) ?up 0 [] s = None"
      by simp
    with None Some feA show ?thesis
      by simp
  next
    case (Some rB)
    obtain out c tapsB schedB s4 where rB: "rB = (out, c, tapsB, schedB, s4)"
      by (cases rB)
    from eq Some rB obtain tapsA schedA where
      "dump_taps fuel h (pre @ x # post) ?up 0 [] s = Some (out, c, tapsA, schedA, s4)"
      by (auto simp add: map_option_case split: option.splits)
    with Some rB \<open>find_earliest_tap (pre @ post) = Some i\<close> feA show ?thesis
      by simp
  qed
qed

section \<open>The claims\<close>

text \<open>
  C4.  Whenever the gap \<open>next_time - cur_time\<close>, computed in 64 bits as the code
  computes it, is larger than 10000, the clock advance writes exactly two \<open>x\<close> entries,
  at the timestamps \<open>2 * cur_time\<close> and \<open>2 * cur_time + 1\<close>, then moves the cursor to
  \<open>next_time - 10000\<close> and writes the ordinary cycles from there up to \<open>next_time\<close>:
  10000 of them when \<open>next_time\<close> is at least 10000, and then the cursor ends at
  \<open>next_time\<close>.  The lines are spelled out; the timestamps are those of \<^verbatim>\<open>uint64_t\<close>
  arithmetic, which are the numbers \<open>2 * cur_time\<close> and \<open>2 * cur_time + 1\<close> for every
  \<open>cur_time\<close> below \<open>2 ^ 63\<close>.
\<close>

theorem advance_clock_large_gap:
  assumes "MAX_DELAY_CYCLES < next_time - cur_time"
  shows "advance_clock ofs cur_time next_time =
           (if next_time - 10000 < next_time then next_time else next_time - 10000,
            ofs @
            [CHR ''#'' # dec (unat (cur_time * 2)), ''bx 0'',
             CHR ''#'' # dec (unat (cur_time * 2 + 1)), ''bx 0''] @
            concat (map (\<lambda>k. [CHR ''#'' # dec (unat ((next_time - 10000 + of_nat k) * 2)),
                               ''b0 0'',
                               CHR ''#'' # dec (unat ((next_time - 10000 + of_nat k) * 2 + 1)),
                               ''b1 0''])
                      [0..<unat next_time - unat (next_time - 10000)]))
         \<and> (10000 \<le> next_time \<longrightarrow>
              next_time - 10000 < next_time \<and>
              unat next_time - unat (next_time - 10000) = 10000)
         \<and> (cur_time < 2 ^ 63 \<longrightarrow>
              unat (cur_time * 2) = 2 * unat cur_time \<and>
              unat (cur_time * 2 + 1) = 2 * unat cur_time + 1)
         \<and> length (filter (\<lambda>l. l = ''bx 0'') (snd (advance_clock [] cur_time next_time))) = 2
         \<and> take 2 (timestamps (snd (advance_clock [] cur_time next_time))) =
             [unat (cur_time * 2), unat (cur_time * 2 + 1)]"
proof -
  note eq = advance_clock_gap_any [OF assms]
  have A: "advance_clock ofs' cur_time next_time =
           (if next_time - 10000 < next_time then next_time else next_time - 10000,
            ofs' @
            [CHR ''#'' # dec (unat (cur_time * 2)), ''bx 0'',
             CHR ''#'' # dec (unat (cur_time * 2 + 1)), ''bx 0''] @
            concat (map (\<lambda>k. [CHR ''#'' # dec (unat ((next_time - 10000 + of_nat k) * 2)),
                               ''b0 0'',
                               CHR ''#'' # dec (unat ((next_time - 10000 + of_nat k) * 2 + 1)),
                               ''b1 0''])
                      [0..<unat next_time - unat (next_time - 10000)]))"
    for ofs'
    unfolding eq [of ofs'] by (simp add: clock_gap_def clock_cycle_def MAX_DELAY_CYCLES_def)
  have B: "next_time - 10000 < next_time \<and>
              unat next_time - unat (next_time - 10000) = 10000" if "10000 \<le> next_time"
  proof -
    from that have u: "unat (next_time - 10000) = unat next_time - 10000"
      by (simp add: unat_sub)
    from that have "10000 \<le> unat next_time"
      by (simp add: word_le_nat_alt)
    with u show ?thesis
      by (simp add: word_less_nat_alt)
  qed
  have C: "unat (cur_time * 2) = 2 * unat cur_time \<and>
              unat (cur_time * 2 + 1) = 2 * unat cur_time + 1" if "cur_time < 2 ^ 63"
  proof -
    from that have "unat cur_time < 2 ^ 63"
      by (simp add: word_less_nat_alt)
    then show ?thesis
      by (simp add: unat_word_ariths)
  qed
  have D: "length (filter (\<lambda>l. l = ''bx 0'') (snd (advance_clock [] cur_time next_time))) = 2"
    by (simp only: eq snd_conv append_Nil filter_append concat_cycles_no_x clock_gap_two_x
        append_Nil2)
  have E: "take 2 (timestamps (snd (advance_clock [] cur_time next_time))) =
             [unat (cur_time * 2), unat (cur_time * 2 + 1)]"
  proof -
    have "timestamps (snd (advance_clock [] cur_time next_time)) =
        [unat (cur_time * 2), unat (cur_time * 2 + 1)] @
        timestamps (concat (map (\<lambda>k. [CHR ''#'' # dec (unat ((next_time - 10000 + of_nat k) * 2)),
                               ''b0 0'',
                               CHR ''#'' # dec (unat ((next_time - 10000 + of_nat k) * 2 + 1)),
                               ''b1 0''])
                      [0..<unat next_time - unat (next_time - 10000)]))"
      by (simp only: A snd_conv append_Nil timestamps_append timestamps_gap)
    then show ?thesis
      by (simp only:) simp
  qed
  from A [of ofs] B C D E show ?thesis by blast
qed

text \<open>
  The advance from 0 to 20000 of the claim, which writes 40004 lines; an advance from 7
  to 20007; and an advance from 5 to 3, whose 64-bit gap is larger than 10000 as well.
\<close>

theorem advance_clock_large_gap_witness:
  "MAX_DELAY_CYCLES < (20000 :: 64 word) - 0 \<and>
   fst (advance_clock [] 0 20000) = 20000 \<and>
   take 8 (snd (advance_clock [] 0 20000)) =
     [''#0'', ''bx 0'', ''#1'', ''bx 0'', ''#20000'', ''b0 0'', ''#20001'', ''b1 0''] \<and>
   length (snd (advance_clock [] 0 20000)) = 40004 \<and>
   length (filter (\<lambda>l. l = ''bx 0'') (snd (advance_clock [] 0 20000))) = 2 \<and>
   MAX_DELAY_CYCLES < (20007 :: 64 word) - 7 \<and>
   fst (advance_clock [] 7 20007) = 20007 \<and>
   take 8 (snd (advance_clock [] 7 20007)) =
     [''#14'', ''bx 0'', ''#15'', ''bx 0'', ''#20014'', ''b0 0'', ''#20015'', ''b1 0''] \<and>
   MAX_DELAY_CYCLES < (3 :: 64 word) - 5 \<and>
   advance_clock [] 5 3 = (3 - 10000, [''#10'', ''bx 0'', ''#11'', ''bx 0''])"
proof -
  have h1: "MAX_DELAY_CYCLES < (20000 :: 64 word) - 0"
    by (simp add: MAX_DELAY_CYCLES_def)
  have h2: "MAX_DELAY_CYCLES < (20007 :: 64 word) - 7"
    by (simp add: MAX_DELAY_CYCLES_def)
  have h3: "MAX_DELAY_CYCLES < (3 :: 64 word) - 5"
    by (simp add: MAX_DELAY_CYCLES_def)
  define F :: "nat \<Rightarrow> string list" where
    "F = (\<lambda>k. [CHR ''#'' # dec (unat (((20000 :: 64 word) - 10000 + of_nat k) * 2)),
                ''b0 0'',
                CHR ''#'' # dec (unat (((20000 :: 64 word) - 10000 + of_nat k) * 2 + 1)),
                ''b1 0''])"
  define G :: "nat \<Rightarrow> string list" where
    "G = (\<lambda>k. [CHR ''#'' # dec (unat (((20007 :: 64 word) - 10000 + of_nat k) * 2)),
                ''b0 0'',
                CHR ''#'' # dec (unat (((20007 :: 64 word) - 10000 + of_nat k) * 2 + 1)),
                ''b1 0''])"
  define R :: "nat list" where "R = [Suc 0..<Suc 9999]"
  have F0: "F 0 = [''#20000'', ''b0 0'', ''#20001'', ''b1 0'']"
    by (simp add: F_def dec.simps digit10_def)
  have G0: "G 0 = [''#20014'', ''b0 0'', ''#20015'', ''b1 0'']"
    by (simp add: G_def dec.simps digit10_def)
  have x0: "[CHR ''#'' # dec (unat ((0 :: 64 word) * 2)), ''bx 0'',
             CHR ''#'' # dec (unat ((0 :: 64 word) * 2 + 1)), ''bx 0''] =
            [''#0'', ''bx 0'', ''#1'', ''bx 0'']"
    by (simp add: dec.simps digit10_def)
  have x7: "[CHR ''#'' # dec (unat ((7 :: 64 word) * 2)), ''bx 0'',
             CHR ''#'' # dec (unat ((7 :: 64 word) * 2 + 1)), ''bx 0''] =
            [''#14'', ''bx 0'', ''#15'', ''bx 0'']"
    by (simp add: dec.simps digit10_def)
  have x5: "[CHR ''#'' # dec (unat ((5 :: 64 word) * 2)), ''bx 0'',
             CHR ''#'' # dec (unat ((5 :: 64 word) * 2 + 1)), ''bx 0''] =
            [''#10'', ''bx 0'', ''#11'', ''bx 0'']"
    by (simp add: dec.simps digit10_def)
  have upt: "[0..<Suc 9999] = 0 # R"
    unfolding R_def by (rule upt_conv_Cons) simp
  have lenR: "length R = 9999"
    by (simp add: R_def)
  have n1: "unat (20000 :: 64 word) - unat ((20000 :: 64 word) - 10000) = Suc 9999"
    by simp
  have n2: "unat (20007 :: 64 word) - unat ((20007 :: 64 word) - 10000) = Suc 9999"
    by simp
  have n3: "unat (3 :: 64 word) - unat ((3 :: 64 word) - 10000) = 0"
    by simp
  have c1: "(20000 :: 64 word) - 10000 < 20000"
    by simp
  have c2: "(20007 :: 64 word) - 10000 < 20007"
    by simp
  have c3: "\<not> (3 :: 64 word) - 10000 < 3"
    by simp
  note i1 = advance_clock_large_gap [OF h1, of "[]", folded F_def]
  note i2 = advance_clock_large_gap [OF h2, of "[]", folded G_def]
  note i3 = advance_clock_large_gap [OF h3, of "[]"]
  from i1 have e1: "advance_clock [] 0 20000 =
      (20000, [''#0'', ''bx 0'', ''#1'', ''bx 0''] @ F 0 @ concat (map F R))"
    by (simp only: n1 upt c1 if_True x0 append_Nil list.map concat.simps)
  from i2 have e2: "advance_clock [] 7 20007 =
      (20007, [''#14'', ''bx 0'', ''#15'', ''bx 0''] @ G 0 @ concat (map G R))"
    by (simp only: n2 upt c2 if_True x7 append_Nil list.map concat.simps)
  from i3 have e3: "advance_clock [] 5 3 = (3 - 10000, [''#10'', ''bx 0'', ''#11'', ''bx 0''])"
    by (simp only: n3 c3 if_False x5 append_Nil upt_0 list.map concat.simps append_Nil2)
  have lenF: "length (concat (map F R)) = 4 * length R"
    unfolding F_def by (rule length_concat_four)
  have a: "fst (advance_clock [] 0 20000) = 20000"
    by (simp only: e1 fst_conv)
  have b: "take 8 (snd (advance_clock [] 0 20000)) =
     [''#0'', ''bx 0'', ''#1'', ''bx 0'', ''#20000'', ''b0 0'', ''#20001'', ''b1 0'']"
    by (simp only: e1 snd_conv F0) simp
  have c: "length (snd (advance_clock [] 0 20000)) = 40004"
    by (simp only: e1 snd_conv F0 length_append lenF lenR) simp
  have d: "length (filter (\<lambda>l. l = ''bx 0'') (snd (advance_clock [] 0 20000))) = 2"
    by (rule i1 [THEN conjunct2, THEN conjunct2, THEN conjunct2, THEN conjunct1])
  have e: "fst (advance_clock [] 7 20007) = 20007"
    by (simp only: e2 fst_conv)
  have f: "take 8 (snd (advance_clock [] 7 20007)) =
     [''#14'', ''bx 0'', ''#15'', ''bx 0'', ''#20014'', ''b0 0'', ''#20015'', ''b1 0'']"
    by (simp only: e2 snd_conv G0) simp
  from h1 a b c d h2 e f h3 e3 show ?thesis
    by (intro conjI)
qed


text \<open>
  C5, as the code has it.  The opcode is bits 0 to 2 of every command word.  For a tap
  id below 256 the id is bits 3 to 10 and the bits above bit 10 hold the payload: none
  for the \<open>GET\<close> commands and the hard stop, the low 53 bits of a start or stop time,
  the low 21 bits of the capture depth (whose shift is a 32-bit shift).  The payload is
  shifted by 11, not by 3: the word is \<open>(payload << 11) | (tap_id << 3) | opcode\<close>.
\<close>

theorem command_word_layout:
  fixes tid capture_size :: "32 word" and t :: "64 word"
  shows
  "(take_bit 3 (cmd_width tid) = 0 \<and> take_bit 3 (cmd_count tid) = 1 \<and>
    take_bit 3 (cmd_get_start tid) = 2 \<and> take_bit 3 (cmd_data tid) = 3 \<and>
    take_bit 3 (cmd_set_start t tid) = 4 \<and> take_bit 3 (cmd_stop t tid) = 5 \<and>
    take_bit 3 (cmd_stop0 tid) = 5 \<and> take_bit 3 (cmd_depth capture_size tid) = 6) \<and>
   (tid < 256 \<longrightarrow>
      take_bit 8 (drop_bit 3 (cmd_width tid)) = ucast tid \<and>
      take_bit 8 (drop_bit 3 (cmd_count tid)) = ucast tid \<and>
      take_bit 8 (drop_bit 3 (cmd_get_start tid)) = ucast tid \<and>
      take_bit 8 (drop_bit 3 (cmd_data tid)) = ucast tid \<and>
      take_bit 8 (drop_bit 3 (cmd_set_start t tid)) = ucast tid \<and>
      take_bit 8 (drop_bit 3 (cmd_stop t tid)) = ucast tid \<and>
      take_bit 8 (drop_bit 3 (cmd_stop0 tid)) = ucast tid \<and>
      take_bit 8 (drop_bit 3 (cmd_depth capture_size tid)) = ucast tid \<and>
      drop_bit 11 (cmd_width tid) = 0 \<and> drop_bit 11 (cmd_count tid) = 0 \<and>
      drop_bit 11 (cmd_get_start tid) = 0 \<and> drop_bit 11 (cmd_data tid) = 0 \<and>
      drop_bit 11 (cmd_stop0 tid) = 0 \<and>
      drop_bit 11 (cmd_set_start t tid) = take_bit 53 t \<and>
      drop_bit 11 (cmd_stop t tid) = take_bit 53 t \<and>
      drop_bit 11 (cmd_depth capture_size tid) = ucast (take_bit 21 capture_size) \<and>
      cmd_set_start t tid = push_bit 11 t OR push_bit 3 (ucast tid) OR 4 \<and>
      cmd_stop t tid = push_bit 11 t OR push_bit 3 (ucast tid) OR 5 \<and>
      cmd_depth capture_size tid =
        ucast (push_bit 11 capture_size) OR push_bit 3 (ucast tid) OR 6)"
proof -
  have ops: "take_bit 3 (cmd_width tid) = 0" "take_bit 3 (cmd_count tid) = 1"
    "take_bit 3 (cmd_get_start tid) = 2" "take_bit 3 (cmd_data tid) = 3"
    "take_bit 3 (cmd_set_start t tid) = 4" "take_bit 3 (cmd_stop t tid) = 5"
    "take_bit 3 (cmd_stop0 tid) = 5" "take_bit 3 (cmd_depth capture_size tid) = 6"
    unfolding cmd_width_def cmd_count_def cmd_get_start_def cmd_data_def cmd_depth_def
      cmd_stop_def cmd_set_start_def cmd_stop0_def get_cmd_as_depth0
      CMD_GET_WIDTH_def CMD_GET_COUNT_def CMD_GET_START_def CMD_GET_DATA_def
      CMD_SET_START_def CMD_SET_STOP_def CMD_SET_DEPTH_def
    by (simp_all only: enc64(1) [OF opcode_small(5)] enc64(1) [OF opcode_small(6)]
        enc32(1) [OF opcode_small(1)] enc32(1) [OF opcode_small(2)]
        enc32(1) [OF opcode_small(3)] enc32(1) [OF opcode_small(4)]
        enc32(1) [OF opcode_small(7)] enc32(1) [OF opcode_small(8)])
      simp_all
  have rest: "take_bit 8 (drop_bit 3 (cmd_width tid)) = ucast tid \<and>
      take_bit 8 (drop_bit 3 (cmd_count tid)) = ucast tid \<and>
      take_bit 8 (drop_bit 3 (cmd_get_start tid)) = ucast tid \<and>
      take_bit 8 (drop_bit 3 (cmd_data tid)) = ucast tid \<and>
      take_bit 8 (drop_bit 3 (cmd_set_start t tid)) = ucast tid \<and>
      take_bit 8 (drop_bit 3 (cmd_stop t tid)) = ucast tid \<and>
      take_bit 8 (drop_bit 3 (cmd_stop0 tid)) = ucast tid \<and>
      take_bit 8 (drop_bit 3 (cmd_depth capture_size tid)) = ucast tid \<and>
      drop_bit 11 (cmd_width tid) = 0 \<and> drop_bit 11 (cmd_count tid) = 0 \<and>
      drop_bit 11 (cmd_get_start tid) = 0 \<and> drop_bit 11 (cmd_data tid) = 0 \<and>
      drop_bit 11 (cmd_stop0 tid) = 0 \<and>
      drop_bit 11 (cmd_set_start t tid) = take_bit 53 t \<and>
      drop_bit 11 (cmd_stop t tid) = take_bit 53 t \<and>
      drop_bit 11 (cmd_depth capture_size tid) = ucast (take_bit 21 capture_size) \<and>
      cmd_set_start t tid = push_bit 11 t OR push_bit 3 (ucast tid) OR 4 \<and>
      cmd_stop t tid = push_bit 11 t OR push_bit 3 (ucast tid) OR 5 \<and>
      cmd_depth capture_size tid =
        ucast (push_bit 11 capture_size) OR push_bit 3 (ucast tid) OR 6"
    if small: "tid < 256"
  proof -
    have z: "take_bit 21 (0 :: 32 word) = 0" by simp
    have ids: "take_bit 8 (drop_bit 3 (cmd_width tid)) = ucast tid"
      "take_bit 8 (drop_bit 3 (cmd_count tid)) = ucast tid"
      "take_bit 8 (drop_bit 3 (cmd_get_start tid)) = ucast tid"
      "take_bit 8 (drop_bit 3 (cmd_data tid)) = ucast tid"
      "take_bit 8 (drop_bit 3 (cmd_set_start t tid)) = ucast tid"
      "take_bit 8 (drop_bit 3 (cmd_stop t tid)) = ucast tid"
      "take_bit 8 (drop_bit 3 (cmd_stop0 tid)) = ucast tid"
      "take_bit 8 (drop_bit 3 (cmd_depth capture_size tid)) = ucast tid"
      unfolding cmd_width_def cmd_count_def cmd_get_start_def cmd_data_def cmd_depth_def
        cmd_stop_def cmd_set_start_def cmd_stop0_def get_cmd_as_depth0
        CMD_GET_WIDTH_def CMD_GET_COUNT_def CMD_GET_START_def CMD_GET_DATA_def
        CMD_SET_START_def CMD_SET_STOP_def CMD_SET_DEPTH_def
      by (simp_all only: enc64(2) [OF opcode_small(5) small] enc64(2) [OF opcode_small(6) small]
          enc32(2) [OF opcode_small(1) small] enc32(2) [OF opcode_small(2) small]
          enc32(2) [OF opcode_small(3) small] enc32(2) [OF opcode_small(4) small]
          enc32(2) [OF opcode_small(7) small] enc32(2) [OF opcode_small(8) small])
    have pay: "drop_bit 11 (cmd_width tid) = 0" "drop_bit 11 (cmd_count tid) = 0"
      "drop_bit 11 (cmd_get_start tid) = 0" "drop_bit 11 (cmd_data tid) = 0"
      "drop_bit 11 (cmd_stop0 tid) = 0"
      "drop_bit 11 (cmd_set_start t tid) = take_bit 53 t"
      "drop_bit 11 (cmd_stop t tid) = take_bit 53 t"
      "drop_bit 11 (cmd_depth capture_size tid) = ucast (take_bit 21 capture_size)"
      unfolding cmd_width_def cmd_count_def cmd_get_start_def cmd_data_def cmd_depth_def
        cmd_stop_def cmd_set_start_def cmd_stop0_def get_cmd_as_depth0
        CMD_GET_WIDTH_def CMD_GET_COUNT_def CMD_GET_START_def CMD_GET_DATA_def
        CMD_SET_START_def CMD_SET_STOP_def CMD_SET_DEPTH_def
      by (simp_all only: enc64(3) [OF opcode_small(5) small] enc64(3) [OF opcode_small(6) small]
          enc32(3) [OF opcode_small(1) small] enc32(3) [OF opcode_small(2) small]
          enc32(3) [OF opcode_small(3) small] enc32(3) [OF opcode_small(4) small]
          enc32(3) [OF opcode_small(7) small] enc32(3) [OF opcode_small(8) small] z)
        simp_all
    have forms: "cmd_set_start t tid = push_bit 11 t OR push_bit 3 (ucast tid) OR 4"
      "cmd_stop t tid = push_bit 11 t OR push_bit 3 (ucast tid) OR 5"
      "cmd_depth capture_size tid =
        ucast (push_bit 11 capture_size) OR push_bit 3 (ucast tid) OR 6"
      unfolding cmd_depth_def cmd_stop_def cmd_set_start_def
        CMD_SET_START_def CMD_SET_STOP_def CMD_SET_DEPTH_def
      by (simp_all add: ucast_shift_small [OF small] unsigned_or_eq)
    from ids pay forms show ?thesis by (intro conjI)
  qed
  from ops rest show ?thesis by blast
qed

text \<open>The layout at tap 7, for \<open>GET_DATA\<close> and for \<open>SET_STOP\<close> with payload 1000.\<close>

theorem command_word_layout_witness:
  "(7 :: 32 word) < 256 \<and>
   cmd_data 7 = 59 \<and> take_bit 3 (cmd_data 7) = 3 \<and> take_bit 8 (drop_bit 3 (cmd_data 7)) = 7 \<and>
   cmd_stop 1000 7 = 2048061 \<and> drop_bit 11 (cmd_stop 1000 7) = 1000 \<and>
   take_bit 8 (drop_bit 3 (cmd_stop 1000 7)) = 7 \<and> take_bit 3 (cmd_stop 1000 7) = 5"
proof -
  have small: "(7 :: 32 word) < 256" by simp
  have v: "cmd_data 7 = 59" "cmd_stop 1000 7 = 2048061"
    by (simp_all add: cmd_data_def cmd_stop_def CMD_GET_DATA_def CMD_SET_STOP_def)
  from command_word_layout [of 7 1000 0] small
  have "take_bit 3 (cmd_data 7) = 3 \<and> take_bit 8 (drop_bit 3 (cmd_data 7)) = ucast (7 :: 32 word)
      \<and> drop_bit 11 (cmd_stop 1000 7) = take_bit 53 1000
      \<and> take_bit 8 (drop_bit 3 (cmd_stop 1000 7)) = ucast (7 :: 32 word)
      \<and> take_bit 3 (cmd_stop 1000 7) = 5"
    by blast
  then show ?thesis using small v by simp
qed

text \<open>
  The formula of the claim, \<open>(payload << 3) | opcode | (tap_id << 3)\<close>, is not the
  word the code sends: for \<open>SET_STOP\<close> with payload 1 on tap 0 the code sends 2053,
  the formula gives 13, and the bits of 13 above bit 10 do not hold the payload.
\<close>

theorem command_word_formula_counterexample:
  "cmd_stop 1 0 = 2053 \<and>
   (push_bit 3 (1 :: 64 word) OR CMD_SET_STOP OR push_bit 3 (ucast (0 :: 32 word))) = 13 \<and>
   drop_bit 11 (push_bit 3 (1 :: 64 word) OR CMD_SET_STOP OR push_bit 3 (ucast (0 :: 32 word)))
     \<noteq> (1 :: 64 word)"
  by (simp add: cmd_stop_def CMD_SET_STOP_def)

text \<open>
  C3.  Once a call of \<open>vx_scope_stop\<close> with a device handle has returned, whatever its
  outcome, a further call with a device handle returns 0 and leaves the whole state as
  it is: the globals, the device, the register traffic and the file.
\<close>

theorem stop_twice_is_noop:
  assumes "vx_scope_stop fuel env (Some h) s = Some (out, s')"
  shows "vx_scope_stop fuel' env' (Some h') s' = Some (Returned 0, s')"
proof -
  have "\<not> g_running s'"
  proof (cases "g_running s")
    case False
    with assms show ?thesis
      by (simp add: vx_scope_stop_def)
  next
    case True
    with assms show ?thesis
      unfolding vx_scope_stop_def
      by (auto simp add: Let_def
          split: manifest_file.splits prod.splits sum.splits option.splits if_splits
          dest!: write_taps_globals load_trace_info_globals dump_taps_globals)
  qed
  then show ?thesis
    by (simp add: vx_scope_stop_def)
qed

text \<open>
  A complete run on the scripted device (one tap, two samples), followed by a second
  call.
\<close>

lemma run13_returns: "vx_scope_stop 5 env13 (Some ()) (script_state True [2, 10, 0, 11, 5, 13]) \<noteq> None"
  by code_simp

theorem stop_twice_is_noop_witness:
  "\<exists>out s'. vx_scope_stop 5 env13 (Some ()) (script_state True [2, 10, 0, 11, 5, 13]) = Some (out, s')
     \<and> vx_scope_stop 5 env13 (Some ()) s' = Some (Returned 0, s')"
proof -
  obtain out s' where
    r: "vx_scope_stop 5 env13 (Some ()) (script_state True [2, 10, 0, 11, 5, 13]) = Some (out, s')"
    using run13_returns by fastforce
  from stop_twice_is_noop [OF r] r show ?thesis
    by blast
qed

text \<open>
  C6.  In \<open>vx_scope_stop\<close>, after the stop commands, the loop over the taps of the
  manifest reaches a tap (the taps before it being loaded) and its \<open>GET_COUNT\<close> request
  is answered with a non-zero count.  Then exactly one \<open>GET_START\<close> request with its
  response and one \<open>GET_DATA\<close> request with its response follow (the next register
  access, if any, is the \<open>GET_COUNT\<close> request of the next tap), the loop leaves the tap
  in the vector with \<open>samples\<close> set to the count and \<open>cycle_time\<close> set to
  \<open>1 + start + delta\<close>, and the rest of \<open>vx_scope_stop\<close> (header, merge loop, final
  clock cycle) runs on the vector that holds this tap; provided the six register calls
  succeed and the taps after it are loaded without an error.
\<close>

theorem stop_sets_cycle_time:
  assumes "g_running s" and "manifest env = FileTaps jtaps"
    and "load_taps jtaps 1 = pre @ tap # post"
    and "write_taps h cmd_stop0 (map tap_id (load_taps jtaps 1)) (s\<lparr>g_running := False\<rparr>)
           = (Inr (), s1)"
    and "load_trace_info h pre s1 = (Inr pre', s2)"
    and "registerWrite (g_callback s2) h (cmd_count (tap_id tap)) (dev s2) = (0, d1)"
    and "registerRead (g_callback s2) h d1 = ((0, count), d2)"
    and "count \<noteq> 0"
    and "registerWrite (g_callback s2) h (cmd_get_start (tap_id tap)) d2 = (0, d3)"
    and "registerRead (g_callback s2) h d3 = ((0, start), d4)"
    and "registerWrite (g_callback s2) h (cmd_data (tap_id tap)) d4 = (0, d5)"
    and "registerRead (g_callback s2) h d5 = ((0, delta), d6)"
    and "load_trace_info h post
           (s2\<lparr>dev := d6,
               bus := bus s2 @
                 [BusWrite (cmd_count (tap_id tap)), BusRead count,
                  BusWrite (cmd_get_start (tap_id tap)), BusRead start,
                  BusWrite (cmd_data (tap_id tap)), BusRead delta]\<rparr>) = (Inr post', s3)"
  shows "load_trace_info h (load_taps jtaps 1) s1 =
           (Inr (pre' @ tap\<lparr>samples := ucast count, cycle_time := 1 + start + delta\<rparr> # post'),
            s3)
       \<and> (\<exists>rest. bus s3 =
             bus s2 @
             [BusWrite (cmd_count (tap_id tap)), BusRead count,
              BusWrite (cmd_get_start (tap_id tap)), BusRead start,
              BusWrite (cmd_data (tap_id tap)), BusRead delta] @
             (case post of [] \<Rightarrow> [] | next_tap # _ \<Rightarrow>
                BusWrite (cmd_count (tap_id next_tap)) # rest))
       \<and> vx_scope_stop fuel env (Some h) s =
           (let taps = pre' @ tap\<lparr>samples := ucast count, cycle_time := 1 + start + delta\<rparr>
                        # post'
            in case dump_header fuel (set_order env) [] taps of
                 None \<Rightarrow> None
               | Some (Inl f) \<Rightarrow> Some (Undefined f, s3\<lparr>vcd := []\<rparr>)
               | Some (Inr ofs) \<Rightarrow>
                   (case find_earliest_tap taps of
                      None \<Rightarrow> Some (Returned 0, s3\<lparr>vcd := ofs\<rparr>)
                    | Some i \<Rightarrow>
                        (case dump_taps fuel h taps i 0 [] (s3\<lparr>vcd := ofs\<rparr>) of
                           None \<Rightarrow> None
                         | Some (out, cur_time, taps1, sched, s4) \<Rightarrow>
                             if out \<noteq> Returned 0 then Some (out, s4)
                             else Some (Returned 0,
                                    s4\<lparr>vcd := snd (advance_clock (vcd s4) cur_time
                                                     (cur_time + 1))\<rparr>))))"
proof -
  let ?tap = "tap\<lparr>samples := ucast count, cycle_time := 1 + start + delta\<rparr>"
  let ?s = "s2\<lparr>dev := d6,
               bus := bus s2 @
                 [BusWrite (cmd_count (tap_id tap)), BusRead count,
                  BusWrite (cmd_get_start (tap_id tap)), BusRead start,
                  BusWrite (cmd_data (tap_id tap)), BusRead delta]\<rparr>"
  have one: "load_tap_info h tap s2 = (Inr ?tap, ?s)"
    using assms(6-12) by (rule load_tap_info_loaded)
  have loaded: "load_trace_info h (load_taps jtaps 1) s1 = (Inr (pre' @ ?tap # post'), s3)"
    unfolding assms(3) load_trace_info_append
    by (simp add: assms(5) one assms(13))
  from load_trace_info_bus [OF assms(13)] have traffic: "\<exists>rest. bus s3 =
             bus s2 @
             [BusWrite (cmd_count (tap_id tap)), BusRead count,
              BusWrite (cmd_get_start (tap_id tap)), BusRead start,
              BusWrite (cmd_data (tap_id tap)), BusRead delta] @
             (case post of [] \<Rightarrow> [] | next_tap # _ \<Rightarrow>
                BusWrite (cmd_count (tap_id next_tap)) # rest)"
    by simp
  have stop: "vx_scope_stop fuel env (Some h) s =
           (let taps = pre' @ ?tap # post'
            in case dump_header fuel (set_order env) [] taps of
                 None \<Rightarrow> None
               | Some (Inl f) \<Rightarrow> Some (Undefined f, s3\<lparr>vcd := []\<rparr>)
               | Some (Inr ofs) \<Rightarrow>
                   (case find_earliest_tap taps of
                      None \<Rightarrow> Some (Returned 0, s3\<lparr>vcd := ofs\<rparr>)
                    | Some i \<Rightarrow>
                        (case dump_taps fuel h taps i 0 [] (s3\<lparr>vcd := ofs\<rparr>) of
                           None \<Rightarrow> None
                         | Some (out, cur_time, taps1, sched, s4) \<Rightarrow>
                             if out \<noteq> Returned 0 then Some (out, s4)
                             else Some (Returned 0,
                                    s4\<lparr>vcd := snd (advance_clock (vcd s4) cur_time
                                                     (cur_time + 1))\<rparr>))))"
    unfolding vx_scope_stop_def
    by (simp add: assms(1,2,4) loaded Let_def)
  from loaded traffic stop show ?thesis
    by (intro conjI)
qed


text \<open>
  The manifest of three taps on the scripted device.  The third tap answers count 1,
  start 11 and delta 0; the first answered 2, 10 and 0 and the second count 0.  The run
  returns 0; the register traffic and the file are as shown (the first value lines
  follow the clock cycle 10, whose timestamps are 20 and 21, so the first sample was
  dumped at time 11, and the sample of the third tap at time 12).
\<close>

theorem stop_sets_cycle_time_witness:
  "map_option (\<lambda>(out, s'). (out, dev s', bus s', vcd s'))
     (vx_scope_stop 9 env_mixed (Some ())
        (script_state True [2, 10, 0, 0, 1, 11, 0, 11, 5, 3, 13]))
   = Some (Returned 0, [],
       [BusWrite 61, BusWrite 77, BusWrite 69,
        BusWrite 57, BusRead 2, BusWrite 58, BusRead 10, BusWrite 59, BusRead 0,
        BusWrite 73, BusRead 0,
        BusWrite 65, BusRead 1, BusWrite 66, BusRead 11, BusWrite 67, BusRead 0,
        BusWrite 59, BusRead 11, BusWrite 59, BusRead 5, BusWrite 67, BusRead 3,
        BusWrite 59, BusRead 13],
       [''$version Generated by Vortex Scope Analyzer $end'',
        ''$timescale 1 ns $end'', ''$scope module TOP $end'',
        '' $var wire 1 0 clk $end'', '' $scope module cpu $end'',
        ''  $scope module core $end'', ''   $scope module reg $end'',
        ''    $var wire 1 1 a $end'', ''    $var wire 3 2 b $end'',
        ''   $upscope $end'', ''   $scope module lsu $end'',
        ''    $var wire 2 3 e $end'', ''    $var wire 2 4 f $end'',
        ''   $upscope $end'', ''   $scope module alu $end'',
        ''    $var wire 2 5 c $end'', ''    $var wire 2 6 d $end'',
        ''   $upscope $end'', ''  $upscope $end'', '' $upscope $end'',
        ''$upscope $end'', ''enddefinitions $end'',
        ''#0'', ''b0 0'', ''#1'', ''b1 0'', ''#2'', ''b0 0'', ''#3'', ''b1 0'',
        ''#4'', ''b0 0'', ''#5'', ''b1 0'', ''#6'', ''b0 0'', ''#7'', ''b1 0'',
        ''#8'', ''b0 0'', ''#9'', ''b1 0'', ''#10'', ''b0 0'', ''#11'', ''b1 0'',
        ''#12'', ''b0 0'', ''#13'', ''b1 0'', ''#14'', ''b0 0'', ''#15'', ''b1 0'',
        ''#16'', ''b0 0'', ''#17'', ''b1 0'', ''#18'', ''b0 0'', ''#19'', ''b1 0'',
        ''#20'', ''b0 0'', ''#21'', ''b1 0'',
        ''b011 2'', ''b1 1'',
        ''#22'', ''b0 0'', ''#23'', ''b1 0'',
        ''b11 6'', ''b00 5'',
        ''#24'', ''b0 0'', ''#25'', ''b1 0'', ''#26'', ''b0 0'', ''#27'', ''b1 0'',
        ''#28'', ''b0 0'', ''#29'', ''b1 0'', ''#30'', ''b0 0'', ''#31'', ''b1 0'',
        ''#32'', ''b0 0'', ''#33'', ''b1 0'',
        ''b101 2'', ''b1 1'',
        ''#34'', ''b0 0'', ''#35'', ''b1 0''])
   \<and> map cycle_time
         (case fst (load_trace_info () (load_taps [json13, json_idle, json22] 1)
                 ((script_state False [2, 10, 0, 0, 1, 11, 0, 11, 5, 3, 13])
                    \<lparr>bus := [BusWrite 61, BusWrite 77, BusWrite 69]\<rparr>)) of
            Inr taps \<Rightarrow> taps | Inl err \<Rightarrow> [])
       = [1 + 10 + 0, 0, 1 + 11 + 0]"
proof -
  let ?ws = "[2, 10, 0, 0, 1, 11, 0, 11, 5, 3, 13] :: 64 word list"
  let ?t7 = "\<lparr>tap_id = 7, tap_width = 4, samples = 0, cur_sample = 0, cycle_time = 0,
      path = ''cpu.core.reg'',
      signals = [\<lparr>sig_id = 1, sig_name = ''a'', sig_width = 1\<rparr>,
                 \<lparr>sig_id = 2, sig_name = ''b'', sig_width = 3\<rparr>]\<rparr>"
  let ?t9 = "\<lparr>tap_id = 9, tap_width = 4, samples = 0, cur_sample = 0, cycle_time = 0,
      path = ''cpu.core.lsu'',
      signals = [\<lparr>sig_id = 3, sig_name = ''e'', sig_width = 2\<rparr>,
                 \<lparr>sig_id = 4, sig_name = ''f'', sig_width = 2\<rparr>]\<rparr>"
  let ?t8 = "\<lparr>tap_id = 8, tap_width = 4, samples = 0, cur_sample = 0, cycle_time = 0,
      path = ''cpu.core.alu'',
      signals = [\<lparr>sig_id = 5, sig_name = ''c'', sig_width = 2\<rparr>,
                 \<lparr>sig_id = 6, sig_name = ''d'', sig_width = 2\<rparr>]\<rparr>"
  let ?s1 = "(script_state False ?ws)\<lparr>bus := [BusWrite 61, BusWrite 77, BusWrite 69]\<rparr>"
  let ?s2 = "(script_state False [1, 11, 0, 11, 5, 3, 13])
      \<lparr>bus := [BusWrite 61, BusWrite 77, BusWrite 69,
               BusWrite 57, BusRead 2, BusWrite 58, BusRead 10, BusWrite 59, BusRead 0,
               BusWrite 73, BusRead 0]\<rparr>"
  let ?s3 = "(script_state False [11, 5, 3, 13])
      \<lparr>bus := [BusWrite 61, BusWrite 77, BusWrite 69,
               BusWrite 57, BusRead 2, BusWrite 58, BusRead 10, BusWrite 59, BusRead 0,
               BusWrite 73, BusRead 0,
               BusWrite 65, BusRead 1, BusWrite 66, BusRead 11, BusWrite 67, BusRead 0]\<rparr>"
  have cmds: "cmd_stop0 7 = 61" "cmd_stop0 8 = 69" "cmd_stop0 9 = 77"
    "cmd_count 7 = 57" "cmd_get_start 7 = 58" "cmd_data 7 = 59"
    "cmd_count 8 = 65" "cmd_get_start 8 = 66" "cmd_data 8 = 67"
    "cmd_count 9 = 73"
    by (simp_all add: cmd_stop0_def cmd_count_def cmd_get_start_def cmd_data_def
        CMD_SET_STOP_def CMD_GET_COUNT_def CMD_GET_START_def CMD_GET_DATA_def)
  have taps: "load_taps [json13, json_idle, json22] 1 = [?t7, ?t9] @ ?t8 # []"
    by (simp add: json13_def json22_def json_idle_def)
  have h1: "g_running (script_state True ?ws)"
    by (simp add: script_state_def)
  have h2: "manifest env_mixed = FileTaps [json13, json_idle, json22]"
    by (simp add: env_mixed_def)
  have h4: "write_taps () cmd_stop0 (map tap_id (load_taps [json13, json_idle, json22] 1))
      ((script_state True ?ws)\<lparr>g_running := False\<rparr>) = (Inr (), ?s1)"
    by (simp only: taps)
      (simp add: cmds reg_write_def script_state_def script_callback_def)
  have h5: "load_trace_info () [?t7, ?t9] ?s1 =
      (Inr [?t7\<lparr>samples := 2, cycle_time := 11\<rparr>, ?t9], ?s2)"
    by (simp add: load_tap_info_def reg_query_def reg_write_def reg_read_def cmds
        script_state_def script_callback_def)
  have h13: "load_trace_info () []
      (?s2\<lparr>dev := [11, 5, 3, 13],
           bus := bus ?s2 @
             [BusWrite (cmd_count (tap_id ?t8)), BusRead 1,
              BusWrite (cmd_get_start (tap_id ?t8)), BusRead 11,
              BusWrite (cmd_data (tap_id ?t8)), BusRead 0]\<rparr>) = (Inr [], ?s3)"
    by (simp add: cmds script_state_def)
  note inst = stop_sets_cycle_time [where s = "script_state True ?ws" and env = env_mixed
      and jtaps = "[json13, json_idle, json22]" and pre = "[?t7, ?t9]" and tap = ?t8
      and post = "[]" and h = "()" and ?s1.0 = ?s1
      and pre' = "[?t7\<lparr>samples := 2, cycle_time := 11\<rparr>, ?t9]" and ?s2.0 = ?s2
      and ?d1.0 = "[1, 11, 0, 11, 5, 3, 13]" and count = 1
      and ?d2.0 = "[11, 0, 11, 5, 3, 13]" and ?d3.0 = "[11, 0, 11, 5, 3, 13]"
      and start = 11 and ?d4.0 = "[0, 11, 5, 3, 13]" and ?d5.0 = "[0, 11, 5, 3, 13]"
      and delta = 0 and ?d6.0 = "[11, 5, 3, 13]" and post' = "[]"
      and ?s3.0 = ?s3 and fuel = 9, OF h1 h2 taps h4 h5 _ _ _ _ _ _ _ h13]
  have inst': "load_trace_info () (load_taps [json13, json_idle, json22] 1) ?s1 =
      (Inr ([?t7\<lparr>samples := 2, cycle_time := 11\<rparr>, ?t9] @
            ?t8\<lparr>samples := ucast (1 :: 64 word), cycle_time := 1 + 11 + 0\<rparr> # []), ?s3)
    \<and> vx_scope_stop 9 env_mixed (Some ()) (script_state True ?ws) =
           (let taps = [?t7\<lparr>samples := 2, cycle_time := 11\<rparr>, ?t9] @
                  ?t8\<lparr>samples := ucast (1 :: 64 word), cycle_time := 1 + 11 + 0\<rparr> # []
            in case dump_header 9 (set_order env_mixed) [] taps of
                 None \<Rightarrow> None
               | Some (Inl f) \<Rightarrow> Some (Undefined f, ?s3\<lparr>vcd := []\<rparr>)
               | Some (Inr ofs) \<Rightarrow>
                   (case find_earliest_tap taps of
                      None \<Rightarrow> Some (Returned 0, ?s3\<lparr>vcd := ofs\<rparr>)
                    | Some i \<Rightarrow>
                        (case dump_taps 9 () taps i 0 [] (?s3\<lparr>vcd := ofs\<rparr>) of
                           None \<Rightarrow> None
                         | Some (out, cur_time, taps1, sched, s4) \<Rightarrow>
                             if out \<noteq> Returned 0 then Some (out, s4)
                             else Some (Returned 0,
                                    s4\<lparr>vcd := snd (advance_clock (vcd s4) cur_time
                                                     (cur_time + 1))\<rparr>))))"
    using inst by (simp add: script_state_def script_callback_def)
  have a: "map cycle_time
         (case fst (load_trace_info () (load_taps [json13, json_idle, json22] 1) ?s1) of
            Inr taps \<Rightarrow> taps | Inl err \<Rightarrow> [])
       = [1 + 10 + 0, 0, 1 + 11 + 0]"
    by (simp only: inst' [THEN conjunct1] fst_conv) simp
  show ?thesis
    apply (rule conjI)
     apply (simp only: inst' [THEN conjunct2])
     apply code_simp
    apply (rule a)
    done
qed


text \<open>
  C8, as the code has it.  A nil handle or callback, a missing manifest file and a
  manifest that parses to null make \<open>vx_scope_start\<close> return -1 with the state
  untouched; a manifest the parser rejects leaves the state untouched as well (the
  call ends with the exception of the parser).  \<open>vx_scope_stop\<close> returns -1 for a nil
  handle; for a manifest that parses to null it clears the running flag and returns 0;
  for every manifest that is missing, rejected or null it performs no register access
  and writes nothing to the file.
\<close>

theorem input_errors_perform_no_io:
  "(hdevice = None \<or> callback = None \<or> manifest env = FileMissing \<or> manifest env = FileNull
      \<longrightarrow> vx_scope_start env callback hdevice start_time stop_time s = (Returned (- 1), s)) \<and>
   (manifest env = FileInvalid
      \<longrightarrow> snd (vx_scope_start env callback hdevice start_time stop_time s) = s) \<and>
   vx_scope_stop fuel env None s = Some (Returned (- 1), s) \<and>
   (manifest env = FileNull \<and> g_running s
      \<longrightarrow> vx_scope_stop fuel env (Some h) s = Some (Returned 0, s\<lparr>g_running := False\<rparr>)) \<and>
   (manifest env = FileMissing \<or> manifest env = FileInvalid \<or> manifest env = FileNull
      \<longrightarrow> (\<exists>out s'. vx_scope_stop fuel env hdevice s = Some (out, s') \<and>
             dev s' = dev s \<and> bus s' = bus s \<and> vcd s' = vcd s))"
  unfolding vx_scope_start_def vx_scope_stop_def
  by (auto simp add: Let_def split: option.splits)

theorem input_errors_perform_no_io_witness:
  "vx_scope_start env_null (Some script_callback) (Some ()) 0 0 (script_state False [1])
     = (Returned (- 1), script_state False [1]) \<and>
   vx_scope_start env13 None (Some ()) 0 0 (script_state False [1])
     = (Returned (- 1), script_state False [1]) \<and>
   snd (vx_scope_start env_invalid (Some script_callback) (Some ()) 0 0 (script_state False [1]))
     = script_state False [1] \<and>
   vx_scope_stop 0 env13 None (script_state True [1]) = Some (Returned (- 1), script_state True [1]) \<and>
   vx_scope_stop 0 env_null (Some ()) (script_state True [1])
     = Some (Returned 0, script_state False [1])"
proof -
  have m: "manifest env_null = FileNull" "manifest env_invalid = FileInvalid"
    by (simp_all add: env_null_def env_invalid_def)
  have r: "g_running (script_state True [1])"
    "(script_state True [1])\<lparr>g_running := False\<rparr> = script_state False [1]"
    by (simp_all add: script_state_def)
  from input_errors_perform_no_io
    [of "Some ()" "Some script_callback" env_null 0 0 "script_state False [1]" 0 "()"]
  have a: "vx_scope_start env_null (Some script_callback) (Some ()) 0 0 (script_state False [1])
     = (Returned (- 1), script_state False [1])"
    using m by blast
  from input_errors_perform_no_io
    [of "Some ()" None env13 0 0 "script_state False [1]" 0 "()"]
  have b: "vx_scope_start env13 None (Some ()) 0 0 (script_state False [1])
     = (Returned (- 1), script_state False [1])"
    by blast
  from input_errors_perform_no_io
    [of "Some ()" "Some script_callback" env_invalid 0 0 "script_state False [1]" 0 "()"]
  have c: "snd (vx_scope_start env_invalid (Some script_callback) (Some ()) 0 0
      (script_state False [1])) = script_state False [1]"
    using m by blast
  from input_errors_perform_no_io
    [of "Some ()" "Some script_callback" env13 0 0 "script_state True [1]" 0 "()"]
  have d: "vx_scope_stop 0 env13 None (script_state True [1])
      = Some (Returned (- 1), script_state True [1])"
    by blast
  from input_errors_perform_no_io
    [of "Some ()" "Some script_callback" env_null 0 0 "script_state True [1]" 0 "()"]
  have "vx_scope_stop 0 env_null (Some ()) (script_state True [1])
     = Some (Returned 0, (script_state True [1])\<lparr>g_running := False\<rparr>)"
    using m r(1) by blast
  then have e: "vx_scope_stop 0 env_null (Some ()) (script_state True [1])
     = Some (Returned 0, script_state False [1])"
    by (simp only: r(2))
  from a b c d e show ?thesis
    by (intro conjI)
qed

text \<open>
  The claim asks for a non-zero status from both entry points: \<open>vx_scope_stop\<close> on a
  running session whose manifest parses to null returns 0.
\<close>

theorem stop_null_manifest_counterexample:
  "map_option fst (vx_scope_stop 0 env_null (Some ()) (script_state True [1]))
     = Some (Returned 0)"
  by (simp add: vx_scope_stop_def env_null_def script_state_def)

text \<open>
  C10.  A tap of width 4 with a single sub-signal of width 4: the vector has 4
  elements and the terminating store goes to index 4.
\<close>

theorem dump_tap_single_signal_overrun:
  "fst (dump_tap () tap4 (script_state True [11, 5])) = Undefined BufferOverrun"
  by code_simp

text \<open>
  The order of the lines of one sample, for the two orders of the widths 1 and 3 and
  for the data words 11 (binary 1011) and 13 (the bits 1, 0, 1, 1 read from bit 0
  upwards): in no case is \<open>b1\<close> followed by \<open>b011\<close>.
\<close>

theorem dump_tap_order_counterexample:
  "vcd (snd (snd (dump_tap () tap13 (script_state True [11, 5])))) = [''b011 2'', ''b1 1''] \<and>
   vcd (snd (snd (dump_tap () tap13 (script_state True [13, 5])))) = [''b101 2'', ''b1 1''] \<and>
   vcd (snd (snd (dump_tap () tap31 (script_state True [11, 5])))) = [''b1 2'', ''b101 1''] \<and>
   vcd (snd (snd (dump_tap () tap31 (script_state True [13, 5])))) = [''b1 2'', ''b110 1'']"
  by code_simp

text \<open>
  C9.  For two taps with the paths \<open>cpu.core.reg\<close> and \<open>cpu.core.alu\<close>, whatever
  their signals and whatever order the unordered sets iterate in: the only head is
  \<open>cpu\<close>, the only child of \<open>cpu\<close> is \<open>core\<close>, the children of \<open>core\<close> are \<open>reg\<close>
  and \<open>alu\<close>, which have no children and own the two taps; and the header, once the
  recursion is allowed three levels, is the preamble, the block of \<open>cpu\<close> holding the
  block of \<open>core\<close> holding the blocks of \<open>reg\<close> and \<open>alu\<close> (in either order) with
  the \<^verbatim>\<open>$var wire\<close> lines of their taps, and the two closing lines.
\<close>

theorem header_of_two_paths:
  assumes "path t1 = ''cpu.core.reg''" and "path t2 = ''cpu.core.alu''"
    and "is_set_order order"
  shows "\<exists>hierarchy tails leaves.
    build_hierarchy [t1, t2] (Map.empty, [], Map.empty) = Inr (hierarchy, [''cpu''], tails) \<and>
    hierarchy ''cpu'' = Some [''core''] \<and> hierarchy ''core'' = Some [''reg'', ''alu''] \<and>
    hierarchy ''reg'' = None \<and> hierarchy ''alu'' = None \<and>
    tails ''reg'' = Some t1 \<and> tails ''alu'' = Some t2 \<and>
    tails ''cpu'' = None \<and> tails ''core'' = None \<and>
    (leaves = scope_block 3 ''reg'' (signals t1) [] @ scope_block 3 ''alu'' (signals t2) [] \<or>
     leaves = scope_block 3 ''alu'' (signals t2) [] @ scope_block 3 ''reg'' (signals t1) []) \<and>
    dump_header (Suc (Suc (Suc fuel))) order ofs [t1, t2] =
      Some (Inr (ofs @
        [''$version Generated by Vortex Scope Analyzer $end'',
         ''$timescale 1 ns $end'',
         ''$scope module TOP $end'',
         '' $var wire 1 0 clk $end''] @
        scope_block 1 ''cpu'' [] (scope_block 2 ''core'' [] leaves) @
        [''$upscope $end'', ''enddefinitions $end'']))"
proof -
  define hierarchy :: "string \<rightharpoonup> string list"
    where "hierarchy = [''cpu'' \<mapsto> [''core''], ''core'' \<mapsto> [''reg'', ''alu'']]"
  define tails :: "string \<rightharpoonup> tap_t" where "tails = [''reg'' \<mapsto> t1, ''alu'' \<mapsto> t2]"
  have h: "hierarchy ''cpu'' = Some [''core'']" "hierarchy ''core'' = Some [''reg'', ''alu'']"
    "hierarchy ''reg'' = None" "hierarchy ''alu'' = None"
    by (simp_all add: hierarchy_def)
  have t: "tails ''reg'' = Some t1" "tails ''alu'' = Some t2"
    "tails ''cpu'' = None" "tails ''core'' = None"
    by (simp_all add: tails_def)
  have b: "build_hierarchy [t1, t2] (Map.empty, [], Map.empty) = Inr (hierarchy, [''cpu''], tails)"
    by (auto simp add: assms(1,2) split_paths hierarchy_insert_def set_insert_def
        hierarchy_def tails_def fun_upd_def)
  have o1: "order [''cpu''] = [''cpu'']" "order [''core''] = [''core'']"
    using assms(3) by (simp_all add: order_single)
  have o2: "order [''reg'', ''alu''] = [''reg'', ''alu''] \<or>
      order [''reg'', ''alu''] = [''alu'', ''reg'']"
    using assms(3) by (rule order_pair) simp
  define leaves where "leaves =
    (if order [''reg'', ''alu''] = [''reg'', ''alu'']
     then scope_block 3 ''reg'' (signals t1) [] @ scope_block 3 ''alu'' (signals t2) []
     else scope_block 3 ''alu'' (signals t2) [] @ scope_block 3 ''reg'' (signals t1) [])"
  have leaf_reg: "dump_module (Suc fuel) order ofs' ''reg'' hierarchy tails 3 =
      Some (ofs' @ scope_block 3 ''reg'' (signals t1) [])" for ofs'
    using dump_module_leaf [of hierarchy "''reg''" fuel order ofs' tails 3] by (simp add: h t)
  have leaf_alu: "dump_module (Suc fuel) order ofs' ''alu'' hierarchy tails 3 =
      Some (ofs' @ scope_block 3 ''alu'' (signals t2) [])" for ofs'
    using dump_module_leaf [of hierarchy "''alu''" fuel order ofs' tails 3] by (simp add: h t)
  have core: "dump_module (Suc (Suc fuel)) order ofs' ''core'' hierarchy tails 2 =
      Some (ofs' @ scope_block 2 ''core'' [] leaves)" for ofs'
  proof (cases "order [''reg'', ''alu''] = [''reg'', ''alu'']")
    case True
    then show ?thesis
      by (subst dump_module.simps(2))
        (simp add: h t leaf_reg leaf_alu leaves_def Let_def scope_block_def [of 2]
          del: dump_module.simps)
  next
    case False
    with o2 have "order [''reg'', ''alu''] = [''alu'', ''reg'']" by simp
    with False show ?thesis
      by (subst dump_module.simps(2))
        (simp add: h t leaf_reg leaf_alu leaves_def Let_def scope_block_def [of 2]
          del: dump_module.simps)
  qed
  have cpu: "dump_module (Suc (Suc (Suc fuel))) order ofs' ''cpu'' hierarchy tails 1 =
      Some (ofs' @ scope_block 1 ''cpu'' [] (scope_block 2 ''core'' [] leaves))" for ofs'
    by (subst dump_module.simps(2))
      (simp add: h t o1 core [unfolded numeral_2_eq_2] numeral_2_eq_2 Let_def
          scope_block_def [of "Suc 0"] del: dump_module.simps)
  have hd: "dump_header (Suc (Suc (Suc fuel))) order ofs [t1, t2] =
      Some (Inr (ofs @
        [''$version Generated by Vortex Scope Analyzer $end'',
         ''$timescale 1 ns $end'',
         ''$scope module TOP $end'',
         '' $var wire 1 0 clk $end''] @
        scope_block 1 ''cpu'' [] (scope_block 2 ''core'' [] leaves) @
        [''$upscope $end'', ''enddefinitions $end'']))"
    unfolding dump_header_def Let_def b
    by (simp add: o1 cpu [unfolded One_nat_def] del: dump_module.simps)
  have l: "leaves = scope_block 3 ''reg'' (signals t1) [] @ scope_block 3 ''alu'' (signals t2) [] \<or>
     leaves = scope_block 3 ''alu'' (signals t2) [] @ scope_block 3 ''reg'' (signals t1) []"
    by (simp add: leaves_def)
  from b h t l hd show ?thesis
    by blast
qed

text \<open>The two taps of the scripted device, with the sets iterated in insertion order.\<close>

theorem header_of_two_paths_witness:
  "path tap13 = ''cpu.core.reg'' \<and> path tap4 = ''cpu.core.alu'' \<and> is_set_order (\<lambda>xs. xs) \<and>
   (\<exists>hierarchy tails leaves.
    build_hierarchy [tap13, tap4] (Map.empty, [], Map.empty) = Inr (hierarchy, [''cpu''], tails) \<and>
    hierarchy ''cpu'' = Some [''core''] \<and> hierarchy ''core'' = Some [''reg'', ''alu''] \<and>
    hierarchy ''reg'' = None \<and> hierarchy ''alu'' = None \<and>
    tails ''reg'' = Some tap13 \<and> tails ''alu'' = Some tap4 \<and>
    tails ''cpu'' = None \<and> tails ''core'' = None \<and>
    (leaves = scope_block 3 ''reg'' (signals tap13) [] @ scope_block 3 ''alu'' (signals tap4) [] \<or>
     leaves = scope_block 3 ''alu'' (signals tap4) [] @ scope_block 3 ''reg'' (signals tap13) []) \<and>
    dump_header (Suc (Suc (Suc 0))) (\<lambda>xs. xs) [] [tap13, tap4] =
      Some (Inr ([] @
        [''$version Generated by Vortex Scope Analyzer $end'',
         ''$timescale 1 ns $end'',
         ''$scope module TOP $end'',
         '' $var wire 1 0 clk $end''] @
        scope_block 1 ''cpu'' [] (scope_block 2 ''core'' [] leaves) @
        [''$upscope $end'', ''enddefinitions $end'']))) \<and>
   dump_header (Suc (Suc (Suc 0))) (\<lambda>xs. xs) [] [tap13, tap4] =
     Some (Inr
       [''$version Generated by Vortex Scope Analyzer $end'',
        ''$timescale 1 ns $end'',
        ''$scope module TOP $end'',
        '' $var wire 1 0 clk $end'',
        '' $scope module cpu $end'',
        ''  $scope module core $end'',
        ''   $scope module reg $end'',
        ''    $var wire 1 1 a $end'',
        ''    $var wire 3 2 b $end'',
        ''   $upscope $end'',
        ''   $scope module alu $end'',
        ''    $var wire 4 1 a $end'',
        ''   $upscope $end'',
        ''  $upscope $end'',
        '' $upscope $end'',
        ''$upscope $end'',
        ''enddefinitions $end''])"
proof -
  have p: "path tap13 = ''cpu.core.reg''" "path tap4 = ''cpu.core.alu''"
    by (simp_all add: tap13_def tap4_def)
  have o: "is_set_order (\<lambda>xs. xs)"
    by (simp add: is_set_order_def)
  have v: "dump_header (Suc (Suc (Suc 0))) (\<lambda>xs. xs) [] [tap13, tap4] =
     Some (Inr
       [''$version Generated by Vortex Scope Analyzer $end'',
        ''$timescale 1 ns $end'',
        ''$scope module TOP $end'',
        '' $var wire 1 0 clk $end'',
        '' $scope module cpu $end'',
        ''  $scope module core $end'',
        ''   $scope module reg $end'',
        ''    $var wire 1 1 a $end'',
        ''    $var wire 3 2 b $end'',
        ''   $upscope $end'',
        ''   $scope module alu $end'',
        ''    $var wire 4 1 a $end'',
        ''   $upscope $end'',
        ''  $upscope $end'',
        '' $upscope $end'',
        ''$upscope $end'',
        ''enddefinitions $end''])"
    by code_simp
  from header_of_two_paths [OF p o, of 0 "[]"] p o v show ?thesis
    by (intro conjI)
qed





text \<open>
  C7.  In \<open>vx_scope_stop\<close>, after the stop commands, the loop over the taps of the
  manifest reaches a tap (the taps before it being loaded) and its \<open>GET_COUNT\<close> request
  is answered with 0; the taps after it are loaded without an error.  Then the tap stays
  in the vector as it is, with \<open>samples = 0\<close>; the register access that follows its
  \<open>GET_COUNT\<close> response, if any, is the \<open>GET_COUNT\<close> request of the next tap, so it
  receives neither \<open>GET_START\<close> nor \<open>GET_DATA\<close>; the scheduler never returns it, and a
  merge loop over the vector never dispatches or changes it.  After the header, which
  is that of the whole vector, \<open>vx_scope_stop\<close> behaves exactly as the merge over the
  vector without this tap: it returns the same status, 0 when that merge completes,
  with the same register traffic and the same lines in the file.
\<close>

theorem zero_count_tap_is_skipped:
  assumes "g_running s" and "manifest env = FileTaps jtaps"
    and "load_taps jtaps 1 = pre @ tap # post"
    and "write_taps h cmd_stop0 (map tap_id (load_taps jtaps 1)) (s\<lparr>g_running := False\<rparr>)
           = (Inr (), s1)"
    and "load_trace_info h pre s1 = (Inr pre', s2)"
    and "registerWrite (g_callback s2) h (cmd_count (tap_id tap)) (dev s2) = (0, d1)"
    and "registerRead (g_callback s2) h d1 = ((0, 0), d2)"
    and "load_trace_info h post
           (s2\<lparr>dev := d2,
               bus := bus s2 @ [BusWrite (cmd_count (tap_id tap)), BusRead 0]\<rparr>)
           = (Inr post', s3)"
  shows "load_trace_info h (load_taps jtaps 1) s1 = (Inr (pre' @ tap # post'), s3)
       \<and> samples tap = 0
       \<and> (\<exists>rest. bus s3 =
             bus s2 @ [BusWrite (cmd_count (tap_id tap)), BusRead 0] @
             (case post of [] \<Rightarrow> [] | next_tap # _ \<Rightarrow>
                BusWrite (cmd_count (tap_id next_tap)) # rest))
       \<and> find_earliest_tap (pre' @ tap # post') \<noteq> Some (length pre')
       \<and> (\<forall>i s0 out c taps1 sched s4.
             find_earliest_tap (pre' @ tap # post') = Some i \<and>
             dump_taps fuel h (pre' @ tap # post') i 0 [] s0 = Some (out, c, taps1, sched, s4)
             \<longrightarrow> length pre' \<notin> fst ` set sched \<and> taps1 ! length pre' = tap)
       \<and> vx_scope_stop fuel env (Some h) s =
           (case dump_header fuel (set_order env) [] (pre' @ tap # post') of
              None \<Rightarrow> None
            | Some (Inl f) \<Rightarrow> Some (Undefined f, s3\<lparr>vcd := []\<rparr>)
            | Some (Inr ofs) \<Rightarrow>
                (case find_earliest_tap (pre' @ post') of
                   None \<Rightarrow> Some (Returned 0, s3\<lparr>vcd := ofs\<rparr>)
                 | Some i \<Rightarrow>
                     (case dump_taps fuel h (pre' @ post') i 0 [] (s3\<lparr>vcd := ofs\<rparr>) of
                        None \<Rightarrow> None
                      | Some (out, cur_time, taps1, sched, s4) \<Rightarrow>
                          if out \<noteq> Returned 0 then Some (out, s4)
                          else Some (Returned 0,
                                 s4\<lparr>vcd := snd (advance_clock (vcd s4) cur_time
                                                  (cur_time + 1))\<rparr>))))"
proof -
  let ?s = "s2\<lparr>dev := d2, bus := bus s2 @ [BusWrite (cmd_count (tap_id tap)), BusRead 0]\<rparr>"
  let ?T = "pre' @ tap # post'"
  have one: "load_tap_info h tap s2 = (Inr tap, ?s)"
    using assms(6,7) by (rule load_tap_info_zero)
  have loaded: "load_trace_info h (load_taps jtaps 1) s1 = (Inr ?T, s3)"
    unfolding assms(3) load_trace_info_append
    by (simp add: assms(5) one assms(8))
  from load_signals_fst [OF assms(3)] have zero: "samples tap = 0"
    by simp
  from load_trace_info_bus [OF assms(8)] have traffic: "\<exists>rest. bus s3 =
             bus s2 @ [BusWrite (cmd_count (tap_id tap)), BusRead 0] @
             (case post of [] \<Rightarrow> [] | next_tap # _ \<Rightarrow>
                BusWrite (cmd_count (tap_id next_tap)) # rest)"
    by simp
  have never: "find_earliest_tap ?T \<noteq> Some (length pre')"
  proof
    assume "find_earliest_tap ?T = Some (length pre')"
    from find_earliest_Some [OF this] zero show False
      by (simp add: pending_def)
  qed
  have skipped: "\<forall>i s0 out c taps1 sched s4.
             find_earliest_tap ?T = Some i \<and>
             dump_taps fuel h ?T i 0 [] s0 = Some (out, c, taps1, sched, s4)
             \<longrightarrow> length pre' \<notin> fst ` set sched \<and> taps1 ! length pre' = tap"
  proof (intro allI impI, elim conjE)
    fix i s0 out c taps1 sched s4
    assume fe: "find_earliest_tap ?T = Some i"
      and run: "dump_taps fuel h ?T i 0 [] s0 = Some (out, c, taps1, sched, s4)"
    have k: "length pre' < length ?T" by simp
    have z: "samples (?T ! length pre') = 0" using zero by simp
    from dump_taps_skips_empty [OF run fe k z]
    show "length pre' \<notin> fst ` set sched \<and> taps1 ! length pre' = tap"
      by simp
  qed
  note tail = stop_tail [OF assms(1,2,4) loaded, of fuel]
  have stop: "vx_scope_stop fuel env (Some h) s =
           (case dump_header fuel (set_order env) [] ?T of
              None \<Rightarrow> None
            | Some (Inl f) \<Rightarrow> Some (Undefined f, s3\<lparr>vcd := []\<rparr>)
            | Some (Inr ofs) \<Rightarrow>
                (case find_earliest_tap (pre' @ post') of
                   None \<Rightarrow> Some (Returned 0, s3\<lparr>vcd := ofs\<rparr>)
                 | Some i \<Rightarrow>
                     (case dump_taps fuel h (pre' @ post') i 0 [] (s3\<lparr>vcd := ofs\<rparr>) of
                        None \<Rightarrow> None
                      | Some (out, cur_time, taps1, sched, s4) \<Rightarrow>
                          if out \<noteq> Returned 0 then Some (out, s4)
                          else Some (Returned 0,
                                 s4\<lparr>vcd := snd (advance_clock (vcd s4) cur_time
                                                  (cur_time + 1))\<rparr>))))"
    unfolding tail
    by (simp add: merge_without [OF zero] cong: option.case_cong sum.case_cong)
  from loaded zero traffic never skipped stop show ?thesis
    by (intro conjI)
qed


text \<open>
  The manifest of three taps on the scripted device, the second tap answering count 0
  beside two taps with one sample each.  The run returns 0.  The second tap has id 9
  and the signals 3 and 4: after \<open>GET_COUNT\<close> (73) and its response the next request is
  the \<open>GET_COUNT\<close> of tap 8 (65), neither 74 nor 75 is ever written, and no value line
  of the body carries the id 3 or 4.
\<close>

theorem zero_count_tap_is_skipped_witness:
  "map_option (\<lambda>(out, s'). (out, bus s', vcd s'))
     (vx_scope_stop 9 env_mixed (Some ()) (script_state True [1, 3, 0, 0, 1, 1, 0, 6, 9]))
   = Some (Returned 0,
       [BusWrite 61, BusWrite 77, BusWrite 69,
        BusWrite 57, BusRead 1, BusWrite 58, BusRead 3, BusWrite 59, BusRead 0,
        BusWrite 73, BusRead 0,
        BusWrite 65, BusRead 1, BusWrite 66, BusRead 1, BusWrite 67, BusRead 0,
        BusWrite 67, BusRead 6, BusWrite 59, BusRead 9],
       [''$version Generated by Vortex Scope Analyzer $end'',
        ''$timescale 1 ns $end'', ''$scope module TOP $end'',
        '' $var wire 1 0 clk $end'', '' $scope module cpu $end'',
        ''  $scope module core $end'', ''   $scope module reg $end'',
        ''    $var wire 1 1 a $end'', ''    $var wire 3 2 b $end'',
        ''   $upscope $end'', ''   $scope module lsu $end'',
        ''    $var wire 2 3 e $end'', ''    $var wire 2 4 f $end'',
        ''   $upscope $end'', ''   $scope module alu $end'',
        ''    $var wire 2 5 c $end'', ''    $var wire 2 6 d $end'',
        ''   $upscope $end'', ''  $upscope $end'', '' $upscope $end'',
        ''$upscope $end'', ''enddefinitions $end'',
        ''#0'', ''b0 0'', ''#1'', ''b1 0'', ''#2'', ''b0 0'', ''#3'', ''b1 0'',
        ''b10 6'', ''b01 5'',
        ''#4'', ''b0 0'', ''#5'', ''b1 0'', ''#6'', ''b0 0'', ''#7'', ''b1 0'',
        ''b001 2'', ''b1 1'',
        ''#8'', ''b0 0'', ''#9'', ''b1 0''])
   \<and> map samples
         (case fst (load_trace_info () (load_taps [json13, json_idle, json22] 1)
                 ((script_state False [1, 3, 0, 0, 1, 1, 0, 6, 9])
                    \<lparr>bus := [BusWrite 61, BusWrite 77, BusWrite 69]\<rparr>)) of
            Inr taps \<Rightarrow> taps | Inl err \<Rightarrow> [])
       = [1, 0, 1]
   \<and> cmd_count 9 = 73 \<and> cmd_get_start 9 = 74 \<and> cmd_data 9 = 75"
proof -
  let ?ws = "[1, 3, 0, 0, 1, 1, 0, 6, 9] :: 64 word list"
  let ?t7 = "\<lparr>tap_id = 7, tap_width = 4, samples = 0, cur_sample = 0, cycle_time = 0,
      path = ''cpu.core.reg'',
      signals = [\<lparr>sig_id = 1, sig_name = ''a'', sig_width = 1\<rparr>,
                 \<lparr>sig_id = 2, sig_name = ''b'', sig_width = 3\<rparr>]\<rparr>"
  let ?t9 = "\<lparr>tap_id = 9, tap_width = 4, samples = 0, cur_sample = 0, cycle_time = 0,
      path = ''cpu.core.lsu'',
      signals = [\<lparr>sig_id = 3, sig_name = ''e'', sig_width = 2\<rparr>,
                 \<lparr>sig_id = 4, sig_name = ''f'', sig_width = 2\<rparr>]\<rparr>"
  let ?t8 = "\<lparr>tap_id = 8, tap_width = 4, samples = 0, cur_sample = 0, cycle_time = 0,
      path = ''cpu.core.alu'',
      signals = [\<lparr>sig_id = 5, sig_name = ''c'', sig_width = 2\<rparr>,
                 \<lparr>sig_id = 6, sig_name = ''d'', sig_width = 2\<rparr>]\<rparr>"
  let ?s1 = "(script_state False ?ws)\<lparr>bus := [BusWrite 61, BusWrite 77, BusWrite 69]\<rparr>"
  let ?s2 = "(script_state False [0, 1, 1, 0, 6, 9])
      \<lparr>bus := [BusWrite 61, BusWrite 77, BusWrite 69,
               BusWrite 57, BusRead 1, BusWrite 58, BusRead 3, BusWrite 59, BusRead 0]\<rparr>"
  let ?s3 = "(script_state False [6, 9])
      \<lparr>bus := [BusWrite 61, BusWrite 77, BusWrite 69,
               BusWrite 57, BusRead 1, BusWrite 58, BusRead 3, BusWrite 59, BusRead 0,
               BusWrite 73, BusRead 0,
               BusWrite 65, BusRead 1, BusWrite 66, BusRead 1, BusWrite 67, BusRead 0]\<rparr>"
  have cmds: "cmd_stop0 7 = 61" "cmd_stop0 8 = 69" "cmd_stop0 9 = 77"
    "cmd_count 7 = 57" "cmd_get_start 7 = 58" "cmd_data 7 = 59"
    "cmd_count 8 = 65" "cmd_get_start 8 = 66" "cmd_data 8 = 67"
    "cmd_count 9 = 73" "cmd_get_start 9 = 74" "cmd_data 9 = 75"
    by (simp_all add: cmd_stop0_def cmd_count_def cmd_get_start_def cmd_data_def
        CMD_SET_STOP_def CMD_GET_COUNT_def CMD_GET_START_def CMD_GET_DATA_def)
  have taps: "load_taps [json13, json_idle, json22] 1 = [?t7] @ ?t9 # [?t8]"
    by (simp add: json13_def json22_def json_idle_def)
  have h1: "g_running (script_state True ?ws)"
    by (simp add: script_state_def)
  have h2: "manifest env_mixed = FileTaps [json13, json_idle, json22]"
    by (simp add: env_mixed_def)
  have h4: "write_taps () cmd_stop0 (map tap_id (load_taps [json13, json_idle, json22] 1))
      ((script_state True ?ws)\<lparr>g_running := False\<rparr>) = (Inr (), ?s1)"
    by (simp only: taps)
      (simp add: cmds reg_write_def script_state_def script_callback_def)
  have h5: "load_trace_info () [?t7] ?s1 = (Inr [?t7\<lparr>samples := 1, cycle_time := 4\<rparr>], ?s2)"
    by (simp add: load_tap_info_def reg_query_def reg_write_def reg_read_def cmds
        script_state_def script_callback_def)
  have h6: "registerWrite (g_callback ?s2) () (cmd_count (tap_id ?t9)) (dev ?s2)
      = (0, [0, 1, 1, 0, 6, 9])"
    by (simp add: script_state_def script_callback_def)
  have h7: "registerRead (g_callback ?s2) () [0, 1, 1, 0, 6, 9] = ((0, 0), [1, 1, 0, 6, 9])"
    by (simp add: script_state_def script_callback_def)
  have h8: "load_trace_info () [?t8]
      (?s2\<lparr>dev := [1, 1, 0, 6, 9],
           bus := bus ?s2 @ [BusWrite (cmd_count (tap_id ?t9)), BusRead 0]\<rparr>)
      = (Inr [?t8\<lparr>samples := 1, cycle_time := 2\<rparr>], ?s3)"
    by (simp add: load_tap_info_def reg_query_def reg_write_def reg_read_def cmds
        script_state_def script_callback_def)
  note inst = zero_count_tap_is_skipped [where fuel = 9, OF h1 h2 taps h4 h5 h6 h7 h8]
  have a: "map samples
         (case fst (load_trace_info () (load_taps [json13, json_idle, json22] 1) ?s1) of
            Inr taps \<Rightarrow> taps | Inl err \<Rightarrow> [])
       = [1, 0, 1]"
    by (simp only: inst [THEN conjunct1] fst_conv) simp
  have b: "map_option (\<lambda>(out, s'). (out, bus s', vcd s'))
     (vx_scope_stop 9 env_mixed (Some ()) (script_state True ?ws))
   = Some (Returned 0,
       [BusWrite 61, BusWrite 77, BusWrite 69,
        BusWrite 57, BusRead 1, BusWrite 58, BusRead 3, BusWrite 59, BusRead 0,
        BusWrite 73, BusRead 0,
        BusWrite 65, BusRead 1, BusWrite 66, BusRead 1, BusWrite 67, BusRead 0,
        BusWrite 67, BusRead 6, BusWrite 59, BusRead 9],
       [''$version Generated by Vortex Scope Analyzer $end'',
        ''$timescale 1 ns $end'', ''$scope module TOP $end'',
        '' $var wire 1 0 clk $end'', '' $scope module cpu $end'',
        ''  $scope module core $end'', ''   $scope module reg $end'',
        ''    $var wire 1 1 a $end'', ''    $var wire 3 2 b $end'',
        ''   $upscope $end'', ''   $scope module lsu $end'',
        ''    $var wire 2 3 e $end'', ''    $var wire 2 4 f $end'',
        ''   $upscope $end'', ''   $scope module alu $end'',
        ''    $var wire 2 5 c $end'', ''    $var wire 2 6 d $end'',
        ''   $upscope $end'', ''  $upscope $end'', '' $upscope $end'',
        ''$upscope $end'', ''enddefinitions $end'',
        ''#0'', ''b0 0'', ''#1'', ''b1 0'', ''#2'', ''b0 0'', ''#3'', ''b1 0'',
        ''b10 6'', ''b01 5'',
        ''#4'', ''b0 0'', ''#5'', ''b1 0'', ''#6'', ''b0 0'', ''#7'', ''b1 0'',
        ''b001 2'', ''b1 1'',
        ''#8'', ''b0 0'', ''#9'', ''b1 0''])"
    apply (simp only: inst [THEN conjunct2, THEN conjunct2, THEN conjunct2, THEN conjunct2,
          THEN conjunct2])
    apply code_simp
    done
  from b a cmds(10,11,12) show ?thesis
    by (intro conjI)
qed


end
